theory Spec2Isabelle
  imports Main
begin

section \<open>Element trees\<close>

text \<open>
  The program works on an lxml element tree. An element is modelled by its Python object
  identity (\<open>ident\<close>, what \<^verbatim>\<open>is\<close> compares), its tag as a pair of namespace URI and local
  name (the empty namespace stands for an unqualified tag), its attributes in document
  order, and its children. Text and tail strings are never read by the program and are left
  out. The prefix map of the root element (\<^verbatim>\<open>root.nsmap\<close>) is passed beside the tree.
\<close>

datatype node = Node (ident: nat) (tag: "string \<times> string")
  (attrs: "(string \<times> string) list") (children: "node list")

datatype error = ValueError | AttributeError | IndexError

type_synonym nsmap = "string \<Rightarrow> string option"

text \<open>A \<^verbatim>\<open>QName\<close> object, read through its \<^verbatim>\<open>namespace\<close> and \<^verbatim>\<open>localname\<close>.\<close>

type_synonym qname = "string option \<times> string"

text \<open>
  The constructor \<^verbatim>\<open>etree.QName(ns, local)\<close> belongs to the library, not to the program: it
  returns the pair or raises on a local name it does not accept. It is a parameter of the
  model, so every theorem holds for whatever the library does.
\<close>

type_synonym qname_ctor = "string option \<Rightarrow> string \<Rightarrow> error + qname"

text \<open>A key of the declaration index and of the retained set: \<^verbatim>\<open>(tns, name)\<close>, either of
  which may be \<^verbatim>\<open>None\<close>.\<close>

type_synonym key = "string option \<times> string option"

definition WSDL_NS :: string where
  "WSDL_NS = ''http://schemas.xmlsoap.org/wsdl/''"

definition XSD_NS :: string where
  "XSD_NS = ''http://www.w3.org/2001/XMLSchema''"

definition WSP_NS :: string where
  "WSP_NS = ''http://schemas.xmlsoap.org/ws/2004/09/policy''"

definition SOAPBIND_NS :: string where
  "SOAPBIND_NS = ''http://schemas.xmlsoap.org/wsdl/soap/''"

definition SOAP12_NS :: string where
  "SOAP12_NS = ''http://schemas.xmlsoap.org/wsdl/soap12/''"

definition get :: "node \<Rightarrow> string \<Rightarrow> string option" where
  "get el a = map_of (attrs el) a"

definition findall :: "node \<Rightarrow> string \<times> string \<Rightarrow> node list" where
  "findall el t = filter (\<lambda>c. tag c = t) (children el)"

definition find_first :: "node \<Rightarrow> string \<times> string \<Rightarrow> node option" where
  "find_first el t = (case findall el t of [] \<Rightarrow> None | c # _ \<Rightarrow> Some c)"

text \<open>\<^verbatim>\<open>s.split(':', 1)\<close> when \<^verbatim>\<open>s\<close> holds a colon: the text before the first colon and the
  text after it.\<close>

definition split_colon :: "string \<Rightarrow> (string \<times> string) option" where
  "split_colon s =
     (if CHR '':'' \<in> set s
      then Some (takeWhile (\<lambda>c. c \<noteq> CHR '':'') s, tl (dropWhile (\<lambda>c. c \<noteq> CHR '':'') s))
      else None)"

section \<open>Qualified-name resolution\<close>

text \<open>
  \<^verbatim>\<open>resolve_qname(root, qname_str, tag=None)\<close>, the branch without a tag: unpacking the split
  raises \<^verbatim>\<open>ValueError\<close> when there is no colon.
\<close>

definition resolve_qname :: "qname_ctor \<Rightarrow> nsmap \<Rightarrow> string \<Rightarrow> error + qname" where
  "resolve_qname Q nsm qname_str =
     (case split_colon qname_str of
        None \<Rightarrow> Inl ValueError
      | Some (prefix, local) \<Rightarrow> Q (nsm prefix) local)"

text \<open>
  The branch with a tag: the first child of the root with that tag whose \<^verbatim>\<open>name\<close> is the
  local part, or \<^verbatim>\<open>None\<close>. The argument is the result of \<^verbatim>\<open>.get\<close>, so it may be \<^verbatim>\<open>None\<close>,
  on which \<^verbatim>\<open>.split\<close> raises \<^verbatim>\<open>AttributeError\<close>.
\<close>

definition resolve_qname_tag ::
  "node \<Rightarrow> string option \<Rightarrow> string \<times> string \<Rightarrow> error + node option" where
  "resolve_qname_tag root qname_str t =
     (case qname_str of
        None \<Rightarrow> Inl AttributeError
      | Some s \<Rightarrow>
          (case split_colon s of
             None \<Rightarrow> Inl ValueError
           | Some (prefix, local) \<Rightarrow>
               (case filter (\<lambda>el. get el ''name'' = Some local) (findall root t) of
                  [] \<Rightarrow> Inr None
                | el # _ \<Rightarrow> Inr (Some el))))"

section \<open>Declaration index and reachability\<close>

text \<open>\<^verbatim>\<open>root.findall('.//wsdl:types/xsd:schema')\<close>: the schema children of every
  \<^verbatim>\<open>wsdl:types\<close> element below the root, in document order.\<close>

fun schemas_of :: "node \<Rightarrow> node list" where
  "schemas_of (Node i t as cs) =
     concat (map (\<lambda>c. (if tag c = (WSDL_NS, ''types'') then findall c (XSD_NS, ''schema'') else [])
                        @ schemas_of c) cs)"

text \<open>The entries one schema appends to \<^verbatim>\<open>by_name\<close>: elements, then complex types, then
  simple types.\<close>

definition schema_entries :: "node \<Rightarrow> (key \<times> node) list" where
  "schema_entries sch =
     concat (map (\<lambda>l. map (\<lambda>el. ((get sch ''targetNamespace'', get el ''name''), el))
                            (findall sch (XSD_NS, l)))
                 [''element'', ''complexType'', ''simpleType''])"

definition build_by_name :: "node list \<Rightarrow> (key \<times> node) list" where
  "build_by_name schemas = concat (map schema_entries schemas)"

text \<open>\<^verbatim>\<open>by_name.get(key, [])\<close>\<close>

definition by_name_get :: "(key \<times> node) list \<Rightarrow> key \<Rightarrow> node list" where
  "by_name_get by_name k = map snd (filter (\<lambda>e. fst e = k) by_name)"

text \<open>\<^verbatim>\<open>node.xpath('.//@' + attr)\<close>: the values of the attribute on the node and on all its
  descendants, in document order.\<close>

fun attr_values :: "string \<Rightarrow> node \<Rightarrow> string list" where
  "attr_values a (Node i t as cs) =
     (case map_of as a of None \<Rightarrow> [] | Some v \<Rightarrow> [v]) @ concat (map (attr_values a) cs)"

definition ref_values :: "node \<Rightarrow> string list" where
  "ref_values n = concat (map (\<lambda>a. attr_values a n) [''type'', ''ref'', ''base''])"

text \<open>The body of \<^verbatim>\<open>add_refs\<close> over the attribute values: a value with a colon is resolved
  and pushed, a value without one is passed over.\<close>

fun resolve_refs :: "qname_ctor \<Rightarrow> nsmap \<Rightarrow> string list \<Rightarrow> error + qname list" where
  "resolve_refs Q nsm [] = Inr []"
| "resolve_refs Q nsm (el # els) =
     (if CHR '':'' \<in> set el
      then (case resolve_qname Q nsm el of
              Inl e \<Rightarrow> Inl e
            | Inr qn \<Rightarrow>
                (case resolve_refs Q nsm els of Inl e \<Rightarrow> Inl e | Inr qns \<Rightarrow> Inr (qn # qns)))
      else resolve_refs Q nsm els)"

definition add_refs :: "qname_ctor \<Rightarrow> nsmap \<Rightarrow> node \<Rightarrow> qname list \<Rightarrow> error + qname list" where
  "add_refs Q nsm n queue =
     (case resolve_refs Q nsm (ref_values n) of
        Inl e \<Rightarrow> Inl e
      | Inr qns \<Rightarrow> Inr (queue @ qns))"

text \<open>\<^verbatim>\<open>for node in by_name.get(key, []): add_refs(node)\<close>\<close>

fun add_refs_nodes ::
  "qname_ctor \<Rightarrow> nsmap \<Rightarrow> node list \<Rightarrow> qname list \<Rightarrow> error + qname list" where
  "add_refs_nodes Q nsm [] queue = Inr queue"
| "add_refs_nodes Q nsm (n # ns) queue =
     (case add_refs Q nsm n queue of
        Inl e \<Rightarrow> Inl e
      | Inr queue' \<Rightarrow> add_refs_nodes Q nsm ns queue')"

definition qkey :: "qname \<Rightarrow> key" where
  "qkey qn = (fst qn, Some (snd qn))"

text \<open>One pass of the \<^verbatim>\<open>while queue\<close> body on a non-empty queue: \<^verbatim>\<open>queue.pop()\<close> takes the
  last entry.\<close>

definition bfs_step ::
  "qname_ctor \<Rightarrow> nsmap \<Rightarrow> (key \<times> node) list \<Rightarrow> qname list \<times> key set
     \<Rightarrow> error + qname list \<times> key set" where
  "bfs_step Q nsm by_name st =
     (let queue = butlast (fst st); k = qkey (last (fst st)); keep = snd st in
      if k \<in> keep then Inr (queue, keep)
      else (case add_refs_nodes Q nsm (by_name_get by_name k) queue of
              Inl e \<Rightarrow> Inl e
            | Inr queue' \<Rightarrow> Inr (queue', insert k keep)))"

function bfs ::
  "qname_ctor \<Rightarrow> nsmap \<Rightarrow> (key \<times> node) list \<Rightarrow> qname list \<Rightarrow> key set \<Rightarrow> error + key set" where
  "bfs Q nsm by_name queue keep =
     (if queue = [] then Inr keep
      else (case bfs_step Q nsm by_name (queue, keep) of
              Inl e \<Rightarrow> Inl e
            | Inr st \<Rightarrow> bfs Q nsm by_name (fst st) (snd st)))"
  by pat_completeness auto
termination
proof (relation "inv_image (less_than <*lex*> less_than)
    (\<lambda>(Q, nsm, by_name, queue, keep). (card (fst ` set by_name - keep), length queue))",
    goal_cases)
  case 1
  show ?case by (intro wf_inv_image wf_lex_prod wf_less_than)
next
  case (2 Q nsm by_name queue keep st)
  let ?k = "qkey (last queue)"
  let ?q = "butlast queue"
  show ?case
  proof (cases "?k \<in> keep")
    case True
    with 2 have "st = (?q, keep)" by (simp add: bfs_step_def Let_def)
    with 2 show ?thesis by simp
  next
    case out: False
    show ?thesis
    proof (cases "?k \<in> fst ` set by_name")
      case True
      have fin: "finite (fst ` set by_name - keep)" by simp
      from 2 out have "snd st = insert ?k keep"
        by (auto simp: bfs_step_def Let_def split: sum.splits)
      moreover have "card (fst ` set by_name - insert ?k keep) < card (fst ` set by_name - keep)"
        by (rule psubset_card_mono [OF fin]) (use True out in auto)
      ultimately show ?thesis by simp
    next
      case False
      then have "by_name_get by_name ?k = []"
        by (force simp: by_name_get_def filter_empty_conv)
      with 2 out have st: "st = (?q, insert ?k keep)" by (simp add: bfs_step_def Let_def)
      from False have "fst ` set by_name - insert ?k keep = fst ` set by_name - keep" by auto
      with st 2 show ?thesis by simp
    qed
  qed
qed

text \<open>\<^verbatim>\<open>reachable_schema_items(root, seed_qnames)\<close>; the seeds come as the list that
  \<^verbatim>\<open>list(seed_qnames)\<close> makes of the set. Only the retained keys are returned: the schema
  list and the index are recomputed from the tree where they are used.\<close>

definition reachable_schema_items ::
  "qname_ctor \<Rightarrow> nsmap \<Rightarrow> node \<Rightarrow> qname list \<Rightarrow> error + key set" where
  "reachable_schema_items Q nsm root seed_qnames =
     bfs Q nsm (build_by_name (schemas_of root)) seed_qnames {}"

section \<open>Lookups of the orchestrator\<close>

definition find_service :: "node \<Rightarrow> string \<Rightarrow> error + node" where
  "find_service root service_name =
     (case filter (\<lambda>svc. get svc ''name'' = Some service_name)
             (findall root (WSDL_NS, ''service'')) of
        [] \<Rightarrow> Inl ValueError
      | svc # _ \<Rightarrow> Inr svc)"

definition binding_for_port :: "node \<Rightarrow> node \<Rightarrow> error + node option" where
  "binding_for_port root port =
     resolve_qname_tag root (get port ''binding'') (WSDL_NS, ''binding'')"

definition porttype_for_binding :: "node \<Rightarrow> node \<Rightarrow> error + node option" where
  "porttype_for_binding root binding =
     resolve_qname_tag root (get binding ''type'') (WSDL_NS, ''portType'')"

section \<open>Tree edits\<close>

text \<open>
  The program mutates elements in place. In the model an edit of an element returns the
  new element, and \<open>replace_child\<close> writes it back into the root at the place of the object
  with the same identity. \<open>current\<close> reads the state a Python reference to a child of the
  root has now.
\<close>

definition set_children :: "node \<Rightarrow> node list \<Rightarrow> node" where
  "set_children el cs = Node (ident el) (tag el) (attrs el) cs"

definition replace_child :: "node \<Rightarrow> node \<Rightarrow> node" where
  "replace_child el root =
     set_children root (map (\<lambda>c. if ident c = ident el then el else c) (children root))"

definition remove_child :: "node \<Rightarrow> node \<Rightarrow> node" where
  "remove_child el root =
     set_children root (filter (\<lambda>c. ident c \<noteq> ident el) (children root))"

definition current :: "node \<Rightarrow> node \<Rightarrow> node" where
  "current root el =
     (case filter (\<lambda>c. ident c = ident el) (children root) of [] \<Rightarrow> el | c # _ \<Rightarrow> c)"

text \<open>\<^verbatim>\<open>for x in list(el.findall(t)): if cond(x): x.getparent().remove(x)\<close>\<close>

definition remove_where :: "string \<times> string \<Rightarrow> (node \<Rightarrow> bool) \<Rightarrow> node \<Rightarrow> node" where
  "remove_where t cond el =
     set_children el (filter (\<lambda>c. \<not> (tag c = t \<and> cond c)) (children el))"

text \<open>\<^verbatim>\<open>x.get('name') not in names\<close> for a set of strings: \<^verbatim>\<open>None\<close> is never in it.\<close>

definition name_not_in :: "string set \<Rightarrow> node \<Rightarrow> bool" where
  "name_not_in names x = (case get x ''name'' of None \<Rightarrow> True | Some n \<Rightarrow> n \<notin> names)"

fun remove_first :: "(node \<Rightarrow> bool) \<Rightarrow> node list \<Rightarrow> node list" where
  "remove_first P [] = []"
| "remove_first P (c # cs) = (if P c then cs else c # remove_first P cs)"

text \<open>\<^verbatim>\<open>el.insert(i, x)\<close>: as for a list, an index past the end appends.\<close>

definition insert_at :: "nat \<Rightarrow> node \<Rightarrow> node list \<Rightarrow> node list" where
  "insert_at i x cs = take i cs @ x # drop i cs"

section \<open>Stages of the pruning pipeline\<close>

definition prune_porttype_operations :: "node \<Rightarrow> string set \<Rightarrow> node" where
  "prune_porttype_operations porttype keep_ops =
     remove_where (WSDL_NS, ''operation'') (name_not_in keep_ops) porttype"

text \<open>The \<^verbatim>\<open>message\<close> attribute of a child when it is set and not empty.\<close>

definition message_of :: "node \<Rightarrow> string list" where
  "message_of child =
     (case get child ''message'' of None \<Rightarrow> [] | Some m \<Rightarrow> if m = [] then [] else [m])"

definition op_messages :: "node \<Rightarrow> string list" where
  "op_messages op =
     concat (map (\<lambda>child_name.
                    case find_first op (WSDL_NS, child_name) of
                      None \<Rightarrow> []
                    | Some child \<Rightarrow> message_of child) [''input'', ''output''])
     @ concat (map message_of (findall op (WSDL_NS, ''fault'')))"

definition collect_messages_from_porttype :: "node \<Rightarrow> string set" where
  "collect_messages_from_porttype porttype =
     set (concat (map op_messages (findall porttype (WSDL_NS, ''operation''))))"

text \<open>\<^verbatim>\<open>q.split(':', 1)[1]\<close> raises \<^verbatim>\<open>IndexError\<close> on a name without a colon.\<close>

definition after_colon :: "string \<Rightarrow> string" where
  "after_colon s = tl (dropWhile (\<lambda>c. c \<noteq> CHR '':'') s)"

definition find_messages :: "node \<Rightarrow> string set \<Rightarrow> error + node list" where
  "find_messages root message_qnames =
     (if \<exists>q \<in> message_qnames. CHR '':'' \<notin> set q then Inl IndexError
      else Inr (filter (\<lambda>msg. \<not> name_not_in (after_colon ` message_qnames) msg)
                  (findall root (WSDL_NS, ''message''))))"

definition prune_messages :: "node \<Rightarrow> node list \<Rightarrow> node" where
  "prune_messages root keep_messages =
     remove_where (WSDL_NS, ''message'')
       (\<lambda>msg. get msg ''name'' \<notin> set (map (\<lambda>m. get m ''name'') keep_messages)) root"

definition part_refs :: "node \<Rightarrow> string list" where
  "part_refs part =
     concat (map (\<lambda>a. case get part a of None \<Rightarrow> [] | Some v \<Rightarrow> if v = [] then [] else [v])
               [''element'', ''type''])"

fun resolve_list :: "qname_ctor \<Rightarrow> nsmap \<Rightarrow> string list \<Rightarrow> error + qname list" where
  "resolve_list Q nsm [] = Inr []"
| "resolve_list Q nsm (v # vs) =
     (case resolve_qname Q nsm v of
        Inl e \<Rightarrow> Inl e
      | Inr qn \<Rightarrow> (case resolve_list Q nsm vs of Inl e \<Rightarrow> Inl e | Inr qns \<Rightarrow> Inr (qn # qns)))"

text \<open>The Python result is a set of names; the model returns it as a list without
  duplicates, in one of the orders \<^verbatim>\<open>list(seed_qnames)\<close> may have.\<close>

definition collect_schema_qnames_from_messages ::
  "qname_ctor \<Rightarrow> nsmap \<Rightarrow> node list \<Rightarrow> error + qname list" where
  "collect_schema_qnames_from_messages Q nsm messages =
     (case resolve_list Q nsm
             (concat (map part_refs
                (concat (map (\<lambda>msg. findall msg (WSDL_NS, ''part'')) messages)))) of
        Inl e \<Rightarrow> Inl e
      | Inr qns \<Rightarrow> Inr (remdups qns))"

definition is_schema_item :: "node \<Rightarrow> bool" where
  "is_schema_item c \<longleftrightarrow>
     tag c \<in> {(XSD_NS, ''element''), (XSD_NS, ''complexType''), (XSD_NS, ''simpleType'')}"

text \<open>What \<^verbatim>\<open>prune_schemas\<close> leaves of the children of one schema: a named item whose key is
  not retained goes, and so does every import and include.\<close>

definition schema_child_stays :: "key set \<Rightarrow> string option \<Rightarrow> node \<Rightarrow> bool" where
  "schema_child_stays keep_keys tns c \<longleftrightarrow>
     \<not> (is_schema_item c \<and> get c ''name'' \<noteq> None \<and> (tns, get c ''name'') \<notin> keep_keys)
     \<and> tag c \<noteq> (XSD_NS, ''import'') \<and> tag c \<noteq> (XSD_NS, ''include'')"

text \<open>
  \<^verbatim>\<open>prune_schemas\<close> visits the schemas that \<^verbatim>\<open>.//wsdl:types/xsd:schema\<close> found, wherever they
  are in the tree. Whether a child of a schema goes depends on its own tag and name and on
  the schema's target namespace only, none of which an edit changes, so the tree after the
  loop is the one this recursion builds: \<open>in_types\<close> says that the parent is a
  \<^verbatim>\<open>wsdl:types\<close> element below the root.
\<close>

fun prune_tree :: "key set \<Rightarrow> bool \<Rightarrow> node \<Rightarrow> node" where
  "prune_tree keep_keys in_types (Node i t as cs) =
     Node i t as
       (map (prune_tree keep_keys (t = (WSDL_NS, ''types'')))
          (filter (\<lambda>c. in_types \<and> t = (XSD_NS, ''schema'')
                        \<longrightarrow> schema_child_stays keep_keys (map_of as ''targetNamespace'') c) cs))"

definition prune_schemas :: "key set \<Rightarrow> node \<Rightarrow> node" where
  "prune_schemas keep_keys root =
     set_children root (map (prune_tree keep_keys False) (children root))"

definition prune_binding_operations :: "node \<Rightarrow> string set \<Rightarrow> node" where
  "prune_binding_operations binding keep_ops =
     remove_where (WSDL_NS, ''operation'') (name_not_in keep_ops) binding"

definition is_soap12_binding :: "node \<Rightarrow> bool" where
  "is_soap12_binding binding \<longleftrightarrow> find_first binding (SOAPBIND_NS, ''binding'') \<noteq> None"

text \<open>
  \<^verbatim>\<open>attach_policy_to_binding\<close>. The \<^verbatim>\<open>[0]\<close> on an empty \<^verbatim>\<open>findall\<close> raises \<^verbatim>\<open>IndexError\<close>;
  the binding as it is then is returned with the error. Inserting an element of the
  fragment moves it out of the fragment, so the second lookup reads the fragment without
  the node taken first.
\<close>

definition attach_policy_to_binding :: "node \<Rightarrow> node \<Rightarrow> error \<times> node + node" where
  "attach_policy_to_binding binding policy_root =
     (let cs1 = remove_first (\<lambda>c. tag c = (WSP_NS, ''UsingPolicy'')) (children binding) in
      case findall policy_root (WSP_NS, ''UsingPolicy'') of
        [] \<Rightarrow> Inl (IndexError, set_children binding cs1)
      | up # _ \<Rightarrow>
          (let cs2 = insert_at 1 up cs1;
               policy_root' = set_children policy_root
                 (remove_first (\<lambda>c. tag c = (WSP_NS, ''UsingPolicy'')) (children policy_root));
               cs3 = remove_first (\<lambda>c. tag c = (WSP_NS, ''Policy'')) cs2 in
           case findall policy_root' (WSP_NS, ''Policy'') of
             [] \<Rightarrow> Inl (IndexError, set_children binding cs3)
           | pol # _ \<Rightarrow> Inr (set_children binding (insert_at 2 pol cs3))))"

definition prune_existing_policy :: "node \<Rightarrow> node" where
  "prune_existing_policy root =
     remove_where (WSP_NS, ''UsingPolicy'') (\<lambda>n. True)
       (remove_where (WSP_NS, ''Policy'') (\<lambda>n. True) root)"

text \<open>The loop of \<^verbatim>\<open>prune_bindings\<close> over the bindings listed at its start. An error leaves
  the root as the loop has made it so far.\<close>

fun prune_bindings_loop ::
  "node \<Rightarrow> string set \<Rightarrow> node option \<Rightarrow> node list \<Rightarrow> node \<Rightarrow> error \<times> node + node" where
  "prune_bindings_loop target_binding keep_ops policy_tree [] root = Inr root"
| "prune_bindings_loop target_binding keep_ops policy_tree (b # bs) root =
     (if ident b = ident target_binding then
        (let b1 = prune_binding_operations b keep_ops; root1 = replace_child b1 root in
         case policy_tree of
           None \<Rightarrow> prune_bindings_loop target_binding keep_ops policy_tree bs root1
         | Some policy_root \<Rightarrow>
             if is_soap12_binding b1 then
               (let root2 = prune_existing_policy root1 in
                case attach_policy_to_binding b1 policy_root of
                  Inl (e, b2) \<Rightarrow> Inl (e, replace_child b2 root2)
                | Inr b2 \<Rightarrow>
                    prune_bindings_loop target_binding keep_ops policy_tree bs
                      (replace_child b2 root2))
             else prune_bindings_loop target_binding keep_ops policy_tree bs root1)
      else prune_bindings_loop target_binding keep_ops policy_tree bs (remove_child b root))"

definition prune_bindings ::
  "node \<Rightarrow> node \<Rightarrow> string set \<Rightarrow> node option \<Rightarrow> error \<times> node + node" where
  "prune_bindings root target_binding keep_ops policy_tree =
     prune_bindings_loop target_binding keep_ops policy_tree
       (findall root (WSDL_NS, ''binding'')) root"

text \<open>The loop of \<^verbatim>\<open>prune_service_ports\<close> over the children of the service: a port with an
  empty or missing \<^verbatim>\<open>binding\<close> goes, one whose binding has no colon raises \<^verbatim>\<open>IndexError\<close>
  at the \<^verbatim>\<open>[1]\<close>, with the ports before it already handled.\<close>

fun prune_ports :: "string option \<Rightarrow> node list \<Rightarrow> error \<times> node list + node list" where
  "prune_ports target_name [] = Inr []"
| "prune_ports target_name (c # cs) =
     (if tag c \<noteq> (WSDL_NS, ''port'') then
        (case prune_ports target_name cs of
           Inl (e, cs') \<Rightarrow> Inl (e, c # cs') | Inr cs' \<Rightarrow> Inr (c # cs'))
      else
        (case get c ''binding'' of
           None \<Rightarrow> prune_ports target_name cs
         | Some bq \<Rightarrow>
             if bq = [] then prune_ports target_name cs
             else if CHR '':'' \<notin> set bq then Inl (IndexError, c # cs)
             else if Some (after_colon bq) \<noteq> target_name then prune_ports target_name cs
             else (case prune_ports target_name cs of
                     Inl (e, cs') \<Rightarrow> Inl (e, c # cs') | Inr cs' \<Rightarrow> Inr (c # cs'))))"

definition prune_service_ports :: "node \<Rightarrow> node \<Rightarrow> node \<Rightarrow> error \<times> node + node" where
  "prune_service_ports root service target_binding =
     (let svc = current root service in
      case prune_ports (get target_binding ''name'') (children svc) of
        Inl (e, cs) \<Rightarrow> Inl (e, replace_child (set_children svc cs) root)
      | Inr cs \<Rightarrow> Inr (replace_child (set_children svc cs) root))"

definition prune_unused_porttypes :: "node \<Rightarrow> node \<Rightarrow> node" where
  "prune_unused_porttypes root target_porttype =
     remove_where (WSDL_NS, ''portType'') (\<lambda>pt. ident pt \<noteq> ident target_porttype) root"

section \<open>The orchestrator\<close>

text \<open>
  \<^verbatim>\<open>prune_wsdl\<close> from the parsed tree, the \<^verbatim>\<open>keep_operations\<close> of the configuration and the
  parsed policy fragment, if there is one, to the tree that is written out. A run that
  raises returns the error with the tree as it is at that moment.
\<close>

definition prune_wsdl ::
  "qname_ctor \<Rightarrow> nsmap \<Rightarrow> node \<Rightarrow> string set \<Rightarrow> node option \<Rightarrow> string \<Rightarrow> error \<times> node + node" where
  "prune_wsdl Q nsm root keep_ops policy_tree service_name =
     (case find_service root service_name of
        Inl e \<Rightarrow> Inl (e, root)
      | Inr service \<Rightarrow>
     (case findall service (WSDL_NS, ''port'') of
        [] \<Rightarrow> Inl (ValueError, root)
      | port0 # _ \<Rightarrow>
     (case binding_for_port root port0 of
        Inl e \<Rightarrow> Inl (e, root)
      | Inr None \<Rightarrow> Inl (ValueError, root)
      | Inr (Some target_binding) \<Rightarrow>
     (case porttype_for_binding root target_binding of
        Inl e \<Rightarrow> Inl (e, root)
      | Inr None \<Rightarrow> Inl (ValueError, root)
      | Inr (Some target_porttype) \<Rightarrow>
     (let porttype1 = prune_porttype_operations target_porttype keep_ops;
          root1 = replace_child porttype1 root;
          message_qnames = collect_messages_from_porttype porttype1 in
      case find_messages root1 message_qnames of
        Inl e \<Rightarrow> Inl (e, root1)
      | Inr keep_messages \<Rightarrow>
     (let root2 = prune_messages root1 keep_messages in
      case collect_schema_qnames_from_messages Q nsm keep_messages of
        Inl e \<Rightarrow> Inl (e, root2)
      | Inr seed_qnames \<Rightarrow>
     (case reachable_schema_items Q nsm root2 seed_qnames of
        Inl e \<Rightarrow> Inl (e, root2)
      | Inr keep_keys \<Rightarrow>
     (let root3 = prune_schemas keep_keys root2 in
      case prune_bindings root3 target_binding keep_ops policy_tree of
        Inl (e, root4) \<Rightarrow> Inl (e, root4)
      | Inr root4 \<Rightarrow>
     (case prune_service_ports root4 service target_binding of
        Inl (e, root5) \<Rightarrow> Inl (e, root5)
      | Inr root5 \<Rightarrow> Inr (prune_unused_porttypes root5 target_porttype))))))))))"

section \<open>The loop by passes, and reachability as the specification words it\<close>

text \<open>The \<^verbatim>\<open>while\<close> loop run for at most a given number of passes: \<open>None\<close> when the
  passes are used up before the queue is empty.\<close>

fun bfs_fuel ::
  "nat \<Rightarrow> qname_ctor \<Rightarrow> nsmap \<Rightarrow> (key \<times> node) list \<Rightarrow> qname list \<Rightarrow> key set
     \<Rightarrow> (error + key set) option" where
  "bfs_fuel 0 Q nsm by_name queue keep = None"
| "bfs_fuel (Suc n) Q nsm by_name queue keep =
     (if queue = [] then Some (Inr keep)
      else (case bfs_step Q nsm by_name (queue, keep) of
              Inl e \<Rightarrow> Some (Inl e)
            | Inr st \<Rightarrow> bfs_fuel n Q nsm by_name (fst st) (snd st)))"

text \<open>The keys a finite chain of prefixed \<^verbatim>\<open>type\<close>, \<^verbatim>\<open>ref\<close> or \<^verbatim>\<open>base\<close> references reaches from
  the seeds.\<close>

inductive_set reachable_keys ::
  "qname_ctor \<Rightarrow> nsmap \<Rightarrow> (key \<times> node) list \<Rightarrow> qname list \<Rightarrow> key set"
  for Q :: qname_ctor and nsm :: nsmap and by_name :: "(key \<times> node) list" and seeds :: "qname list"
where
  seed: "qn \<in> set seeds \<Longrightarrow> qkey qn \<in> reachable_keys Q nsm by_name seeds"
| ref: "k \<in> reachable_keys Q nsm by_name seeds \<Longrightarrow> n \<in> set (by_name_get by_name k)
        \<Longrightarrow> v \<in> set (ref_values n) \<Longrightarrow> CHR '':'' \<in> set v
        \<Longrightarrow> resolve_qname Q nsm v = Inr qn
        \<Longrightarrow> qkey qn \<in> reachable_keys Q nsm by_name seeds"

text \<open>A schema all of whose named items have a retained key.\<close>

definition only_retained :: "key set \<Rightarrow> node \<Rightarrow> bool" where
  "only_retained K sch \<longleftrightarrow>
     (\<forall>c \<in> set (children sch). is_schema_item c \<longrightarrow> get c ''name'' \<noteq> None
         \<longrightarrow> (get sch ''targetNamespace'', get c ''name'') \<in> K)"

section \<open>Example documents\<close>

text \<open>The name constructor on names it accepts.\<close>

definition plain_QName :: qname_ctor where
  "plain_QName ns local = Inr (ns, local)"

definition ex_nsmap :: nsmap where
  "ex_nsmap = [''tns'' \<mapsto> ''urn:t'', ''xsd'' \<mapsto> XSD_NS]"

text \<open>
  A service \<^verbatim>\<open>S\<close> with one port, bound by \<^verbatim>\<open>B\<close> to the port type \<^verbatim>\<open>PT\<close> with the operations
  \<^verbatim>\<open>Get\<close> and \<^verbatim>\<open>Delete\<close>. The type \<^verbatim>\<open>GetT\<close> refers to itself, and to \<^verbatim>\<open>Note\<close> by an unprefixed
  name.
\<close>

definition ex_GetReq :: node where
  "ex_GetReq = Node 11 (XSD_NS, ''element'') [(''name'', ''GetReq''), (''type'', ''tns:GetT'')] []"

definition ex_GetT :: node where
  "ex_GetT = Node 12 (XSD_NS, ''complexType'') [(''name'', ''GetT'')]
     [Node 13 (XSD_NS, ''element'') [(''name'', ''id''), (''type'', ''tns:IdType'')] [],
      Node 14 (XSD_NS, ''element'') [(''name'', ''next''), (''type'', ''tns:GetT'')] [],
      Node 15 (XSD_NS, ''element'') [(''name'', ''note''), (''type'', ''Note'')] []]"

definition ex_IdType :: node where
  "ex_IdType = Node 16 (XSD_NS, ''simpleType'') [(''name'', ''IdType'')]
     [Node 17 (XSD_NS, ''restriction'') [(''base'', ''xsd:string'')] []]"

definition ex_Note :: node where
  "ex_Note = Node 18 (XSD_NS, ''simpleType'') [(''name'', ''Note'')] []"

definition ex_schema :: node where
  "ex_schema = Node 10 (XSD_NS, ''schema'') [(''targetNamespace'', ''urn:t'')]
     [ex_GetReq, ex_GetT, ex_IdType, ex_Note, Node 19 (XSD_NS, ''import'') [] []]"

definition ex_schema_pruned :: node where
  "ex_schema_pruned = Node 10 (XSD_NS, ''schema'') [(''targetNamespace'', ''urn:t'')]
     [ex_GetReq, ex_GetT, ex_IdType]"

definition ex_msg_get :: node where
  "ex_msg_get = Node 2 (WSDL_NS, ''message'') [(''name'', ''GetIn'')]
     [Node 20 (WSDL_NS, ''part'') [(''element'', ''tns:GetReq'')] []]"

definition ex_msg_del :: node where
  "ex_msg_del = Node 3 (WSDL_NS, ''message'') [(''name'', ''DelIn'')]
     [Node 30 (WSDL_NS, ''part'') [(''type'', ''tns:Note'')] []]"

definition ex_op_get :: node where
  "ex_op_get = Node 40 (WSDL_NS, ''operation'') [(''name'', ''Get'')]
     [Node 41 (WSDL_NS, ''input'') [(''message'', ''tns:GetIn'')] []]"

definition ex_op_del :: node where
  "ex_op_del = Node 42 (WSDL_NS, ''operation'') [(''name'', ''Delete'')]
     [Node 43 (WSDL_NS, ''input'') [(''message'', ''tns:DelIn'')] []]"

definition ex_porttype :: node where
  "ex_porttype = Node 4 (WSDL_NS, ''portType'') [(''name'', ''PT'')] [ex_op_get, ex_op_del]"

definition ex_bop_get :: node where
  "ex_bop_get = Node 51 (WSDL_NS, ''operation'') [(''name'', ''Get'')] []"

definition ex_bop_del :: node where
  "ex_bop_del = Node 52 (WSDL_NS, ''operation'') [(''name'', ''Delete'')] []"

definition ex_soap :: node where
  "ex_soap = Node 50 (SOAPBIND_NS, ''binding'') [] []"

definition ex_binding :: node where
  "ex_binding = Node 5 (WSDL_NS, ''binding'') [(''name'', ''B''), (''type'', ''tns:PT'')]
     [ex_soap, ex_bop_get, ex_bop_del]"

definition ex_service :: node where
  "ex_service = Node 6 (WSDL_NS, ''service'') [(''name'', ''S'')]
     [Node 60 (WSDL_NS, ''port'') [(''binding'', ''tns:B'')] []]"

definition ex_root :: node where
  "ex_root = Node 0 (WSDL_NS, ''definitions'') []
     [Node 1 (WSDL_NS, ''types'') [] [ex_schema],
      ex_msg_get, ex_msg_del, ex_porttype, ex_binding, ex_service]"

text \<open>Policy fragments: one with a node of each kind, one with a second
  \<^verbatim>\<open>UsingPolicy\<close>.\<close>

definition ex_using :: node where
  "ex_using = Node 101 (WSP_NS, ''UsingPolicy'') [] []"

definition ex_pol :: node where
  "ex_pol = Node 102 (WSP_NS, ''Policy'') [] []"

definition ex_policy :: node where
  "ex_policy = Node 100 ([], ''policies'') [] [ex_using, ex_pol]"


text \<open>The example after a run that keeps \<^verbatim>\<open>Get\<close> and splices \<open>ex_policy\<close>.\<close>

definition ex_porttype_pruned :: node where
  "ex_porttype_pruned = Node 4 (WSDL_NS, ''portType'') [(''name'', ''PT'')] [ex_op_get]"

definition ex_binding_spliced :: node where
  "ex_binding_spliced = Node 5 (WSDL_NS, ''binding'') [(''name'', ''B''), (''type'', ''tns:PT'')]
     [ex_soap, ex_using, ex_pol, ex_bop_get]"

definition ex_root_spliced :: node where
  "ex_root_spliced = Node 0 (WSDL_NS, ''definitions'') []
     [Node 1 (WSDL_NS, ''types'') [] [ex_schema_pruned],
      ex_msg_get, ex_porttype_pruned, ex_binding_spliced, ex_service]"

text \<open>The names of the operations an interface or a binding holds.\<close>

definition operation_names :: "node \<Rightarrow> string option set" where
  "operation_names el = (\<lambda>op. get op ''name'') ` set (findall el (WSDL_NS, ''operation''))"

text \<open>A port whose \<^verbatim>\<open>binding\<close> is a prefixed name with the given local part.\<close>

definition port_refers :: "string option \<Rightarrow> node \<Rightarrow> bool" where
  "port_refers name p =
     (case get p ''binding'' of
        None \<Rightarrow> False
      | Some bq \<Rightarrow> CHR '':'' \<in> set bq \<and> Some (after_colon bq) = name)"

text \<open>The same document with a SOAP 1.2 binding, and what a run that keeps \<^verbatim>\<open>Get\<close> leaves
  of it when nothing is spliced.\<close>

definition ex_soap12 :: node where
  "ex_soap12 = Node 50 (SOAP12_NS, ''binding'') [] []"

definition ex_binding12 :: node where
  "ex_binding12 = Node 5 (WSDL_NS, ''binding'') [(''name'', ''B''), (''type'', ''tns:PT'')]
     [ex_soap12, ex_bop_get, ex_bop_del]"

definition ex_root12 :: node where
  "ex_root12 = Node 0 (WSDL_NS, ''definitions'') []
     [Node 1 (WSDL_NS, ''types'') [] [ex_schema],
      ex_msg_get, ex_msg_del, ex_porttype, ex_binding12, ex_service]"

definition ex_root12_pruned :: node where
  "ex_root12_pruned = Node 0 (WSDL_NS, ''definitions'') []
     [Node 1 (WSDL_NS, ''types'') [] [ex_schema_pruned],
      ex_msg_get, ex_porttype_pruned,
      Node 5 (WSDL_NS, ''binding'') [(''name'', ''B''), (''type'', ''tns:PT'')]
        [ex_soap12, ex_bop_get],
      ex_service]"









text \<open>A document whose binding lacks the operation \<^verbatim>\<open>Delete\<close> of its port type, and what a
  run that keeps both operations leaves of it.\<close>

definition ex_binding_short :: node where
  "ex_binding_short = Node 5 (WSDL_NS, ''binding'') [(''name'', ''B''), (''type'', ''tns:PT'')]
     [ex_soap, ex_bop_get]"

definition ex_root_short :: node where
  "ex_root_short = Node 0 (WSDL_NS, ''definitions'') []
     [Node 1 (WSDL_NS, ''types'') [] [ex_schema],
      ex_msg_get, ex_msg_del, ex_porttype, ex_binding_short, ex_service]"

definition ex_schema_flat :: node where
  "ex_schema_flat = Node 10 (XSD_NS, ''schema'') [(''targetNamespace'', ''urn:t'')]
     [ex_GetReq, ex_GetT, ex_IdType, ex_Note]"

definition ex_root_short_pruned :: node where
  "ex_root_short_pruned = Node 0 (WSDL_NS, ''definitions'') []
     [Node 1 (WSDL_NS, ''types'') [] [ex_schema_flat],
      ex_msg_get, ex_msg_del, ex_porttype, ex_binding_short, ex_service]"

text \<open>A document with a second port of the service \<^verbatim>\<open>S\<close> on the same binding, and a second
  service \<^verbatim>\<open>S2\<close> whose port is on the binding \<^verbatim>\<open>B2\<close>; and what a run for \<^verbatim>\<open>S\<close> that keeps
  \<^verbatim>\<open>Get\<close> leaves of it.\<close>

definition ex_port_other :: node where
  "ex_port_other = Node 71 (WSDL_NS, ''port'') [(''name'', ''P2''), (''binding'', ''tns:B2'')] []"

definition ex_service_two :: node where
  "ex_service_two = Node 6 (WSDL_NS, ''service'') [(''name'', ''S'')]
     [Node 60 (WSDL_NS, ''port'') [(''binding'', ''tns:B'')] [],
      Node 61 (WSDL_NS, ''port'') [(''name'', ''again''), (''binding'', ''tns:B'')] []]"

definition ex_service_other :: node where
  "ex_service_other = Node 70 (WSDL_NS, ''service'') [(''name'', ''S2'')] [ex_port_other]"

definition ex_binding_other :: node where
  "ex_binding_other = Node 72 (WSDL_NS, ''binding'') [(''name'', ''B2''), (''type'', ''tns:PT'')]
     [ex_soap]"

definition ex_root_two :: node where
  "ex_root_two = Node 0 (WSDL_NS, ''definitions'') []
     [Node 1 (WSDL_NS, ''types'') [] [ex_schema],
      ex_msg_get, ex_msg_del, ex_porttype, ex_binding, ex_binding_other,
      ex_service_two, ex_service_other]"

definition ex_root_two_pruned :: node where
  "ex_root_two_pruned = Node 0 (WSDL_NS, ''definitions'') []
     [Node 1 (WSDL_NS, ''types'') [] [ex_schema_pruned],
      ex_msg_get, ex_porttype_pruned, ex_binding_short, ex_service_two, ex_service_other]"

section \<open>Properties of the resolver\<close>

declare bfs.simps [simp del]

lemma bfs_Nil: "bfs Q nsm by_name [] keep = Inr keep"
  by (simp add: bfs.simps)

lemma bfs_step_marked:
  "qkey qn \<in> keep \<Longrightarrow> bfs_step Q nsm by_name (queue @ [qn], keep) = Inr (queue, keep)"
  by (simp add: bfs_step_def Let_def)

lemma bfs_step_leaf:
  "by_name_get by_name (qkey qn) = []
   \<Longrightarrow> bfs_step Q nsm by_name (queue @ [qn], keep) = Inr (queue, insert (qkey qn) keep)"
  by (simp add: bfs_step_def Let_def insert_absorb)

lemma bfs_step_keep:
  "bfs_step Q nsm by_name (queue, keep) = Inr st
   \<Longrightarrow> snd st = insert (qkey (last queue)) keep"
  by (auto simp: bfs_step_def Let_def insert_absorb split: if_splits sum.splits)

lemma bfs_keep_subset:
  "bfs Q nsm by_name queue keep = Inr K \<Longrightarrow> keep \<subseteq> K"
proof (induction Q nsm by_name queue keep rule: bfs.induct)
  case (1 Q nsm by_name queue keep)
  show ?case
  proof (cases "queue = []")
    case True
    with "1.prems" show ?thesis by (simp add: bfs.simps)
  next
    case False
    with "1.prems" obtain st where st: "bfs_step Q nsm by_name (queue, keep) = Inr st"
      and run: "bfs Q nsm by_name (fst st) (snd st) = Inr K"
      by (auto simp: bfs.simps [of _ _ _ queue] split: sum.splits)
    from "1.IH" [OF False st run] bfs_step_keep [OF st] show ?thesis by auto
  qed
qed

lemma bfs_last_subset:
  assumes "bfs Q nsm by_name queue keep = Inr K" and "queue \<noteq> []"
  shows "qkey (last queue) \<in> K"
proof -
  from assms obtain st where st: "bfs_step Q nsm by_name (queue, keep) = Inr st"
      and run: "bfs Q nsm by_name (fst st) (snd st) = Inr K"
    by (auto simp: bfs.simps [of _ _ _ queue] split: sum.splits)
  from bfs_keep_subset [OF run] bfs_step_keep [OF st] show ?thesis by auto
qed

lemma bfs_fuel_enough:
  "\<exists>n. bfs_fuel n Q nsm by_name queue keep = Some (bfs Q nsm by_name queue keep)"
proof (induction Q nsm by_name queue keep rule: bfs.induct)
  case (1 Q nsm by_name queue keep)
  show ?case
  proof (cases "queue = []")
    case True
    then have "bfs_fuel (Suc 0) Q nsm by_name queue keep = Some (bfs Q nsm by_name queue keep)"
      by (simp add: bfs.simps)
    then show ?thesis by blast
  next
    case ne: False
    show ?thesis
    proof (cases "bfs_step Q nsm by_name (queue, keep)")
      case (Inl e)
      with ne have "bfs_fuel (Suc 0) Q nsm by_name queue keep = Some (bfs Q nsm by_name queue keep)"
        by (simp add: bfs.simps [of _ _ _ queue])
      then show ?thesis by blast
    next
      case (Inr st)
      from "1.IH" [OF ne Inr] obtain n where
        "bfs_fuel n Q nsm by_name (fst st) (snd st) = Some (bfs Q nsm by_name (fst st) (snd st))" ..
      with ne Inr have "bfs_fuel (Suc n) Q nsm by_name queue keep = Some (bfs Q nsm by_name queue keep)"
        by (simp add: bfs.simps [of _ _ _ queue])
      then show ?thesis by blast
    qed
  qed
qed

lemma resolve_refs_append:
  "resolve_refs Q nsm (xs @ ys) =
     (case resolve_refs Q nsm xs of
        Inl e \<Rightarrow> Inl e
      | Inr a \<Rightarrow> (case resolve_refs Q nsm ys of Inl e \<Rightarrow> Inl e | Inr b \<Rightarrow> Inr (a @ b)))"
  by (induction xs) (auto split: sum.splits)

lemma add_refs_nodes_eq:
  "add_refs_nodes Q nsm ns queue =
     (case resolve_refs Q nsm (concat (map ref_values ns)) of
        Inl e \<Rightarrow> Inl e
      | Inr qns \<Rightarrow> Inr (queue @ qns))"
  by (induction ns arbitrary: queue)
     (auto simp: add_refs_def resolve_refs_append split: sum.splits)

lemma resolve_refs_sound:
  "resolve_refs Q nsm vs = Inr qns \<Longrightarrow> qn \<in> set qns
   \<Longrightarrow> \<exists>v \<in> set vs. CHR '':'' \<in> set v \<and> resolve_qname Q nsm v = Inr qn"
  by (induction vs arbitrary: qns) (auto split: if_splits sum.splits)

lemma bfs_step_pushes:
  assumes "bfs_step Q nsm by_name (queue, keep) = Inr (queue', keep')"
    and "qkey (last queue) \<notin> keep"
  shows "\<exists>pushed. queue' = butlast queue @ pushed
           \<and> resolve_refs Q nsm (concat (map ref_values (by_name_get by_name (qkey (last queue)))))
               = Inr pushed"
  using assms by (auto simp: bfs_step_def Let_def add_refs_nodes_eq split: sum.splits)

lemma bfs_within_reachable:
  assumes "bfs Q nsm by_name queue keep = Inr K"
    and "keep \<subseteq> reachable_keys Q nsm by_name seeds"
    and "qkey ` set queue \<subseteq> reachable_keys Q nsm by_name seeds"
  shows "K \<subseteq> reachable_keys Q nsm by_name seeds"
  using assms
proof (induction Q nsm by_name queue keep rule: bfs.induct)
  case (1 Q nsm by_name queue keep)
  let ?R = "reachable_keys Q nsm by_name seeds"
  show ?case
  proof (cases "queue = []")
    case True
    with "1.prems" show ?thesis by (simp add: bfs.simps)
  next
    case ne: False
    with "1.prems"(1) obtain st where st: "bfs_step Q nsm by_name (queue, keep) = Inr st"
      and run: "bfs Q nsm by_name (fst st) (snd st) = Inr K"
      by (auto simp: bfs.simps [of _ _ _ queue] split: sum.splits)
    let ?k = "qkey (last queue)"
    from "1.prems"(3) have inq: "\<And>qn. qn \<in> set queue \<Longrightarrow> qkey qn \<in> ?R" by blast
    from ne have kR: "?k \<in> ?R" by (simp add: inq)
    from bfs_step_keep [OF st] kR "1.prems"(2) have keepR: "snd st \<subseteq> ?R" by auto
    have queueR: "qkey ` set (fst st) \<subseteq> ?R"
    proof (cases "?k \<in> keep")
      case True
      with st have "fst st = butlast queue" by (auto simp: bfs_step_def Let_def)
      then have "set (fst st) \<subseteq> set queue" by (auto dest: in_set_butlastD)
      with inq show ?thesis by blast
    next
      case False
      from st have "bfs_step Q nsm by_name (queue, keep) = Inr (fst st, snd st)" by simp
      from bfs_step_pushes [OF this False] obtain pushed where
        q': "fst st = butlast queue @ pushed" and
        res: "resolve_refs Q nsm (concat (map ref_values (by_name_get by_name ?k))) = Inr pushed"
        by blast
      have "qkey qn \<in> ?R" if "qn \<in> set pushed" for qn
      proof -
        from resolve_refs_sound [OF res that] obtain v n where
          "n \<in> set (by_name_get by_name ?k)" "v \<in> set (ref_values n)"
          "CHR '':'' \<in> set v" "resolve_qname Q nsm v = Inr qn" by auto
        with kR show ?thesis by (blast intro: reachable_keys.ref)
      qed
      then have pushedR: "\<And>qn. qn \<in> set pushed \<Longrightarrow> qkey qn \<in> ?R" .
      have "qkey qn \<in> ?R" if "qn \<in> set (fst st)" for qn
      proof -
        from that q' have "qn \<in> set (butlast queue) \<or> qn \<in> set pushed" by simp
        with pushedR inq show ?thesis by (blast dest: in_set_butlastD)
      qed
      then show ?thesis by blast
    qed
    from "1.IH" [OF ne st run keepR queueR] show ?thesis .
  qed
qed

lemma tag_prune_tree [simp]: "tag (prune_tree K b n) = tag n"
  by (cases n) simp

lemma attrs_prune_tree [simp]: "attrs (prune_tree K b n) = attrs n"
  by (cases n) simp

lemma ident_prune_tree [simp]: "ident (prune_tree K b n) = ident n"
  by (cases n) simp

lemma get_prune_tree [simp]: "get (prune_tree K b n) a = get n a"
  by (simp add: get_def)

lemma is_schema_item_prune_tree [simp]: "is_schema_item (prune_tree K b n) = is_schema_item n"
  by (simp add: is_schema_item_def)

lemma children_prune_tree:
  "children (prune_tree K b n) =
     map (prune_tree K (tag n = (WSDL_NS, ''types'')))
       (filter (\<lambda>c. b \<and> tag n = (XSD_NS, ''schema'')
                     \<longrightarrow> schema_child_stays K (get n ''targetNamespace'') c) (children n))"
  by (cases n) (simp add: get_def)

lemma schema_pruned_only_retained:
  "tag n = (XSD_NS, ''schema'') \<Longrightarrow> only_retained K (prune_tree K True n)"
  by (auto simp: only_retained_def children_prune_tree schema_child_stays_def)

lemma types_child_only_retained:
  "tag c = (WSDL_NS, ''types'') \<Longrightarrow> sch \<in> set (findall (prune_tree K b c) (XSD_NS, ''schema''))
   \<Longrightarrow> only_retained K sch"
proof -
  assume "tag c = (WSDL_NS, ''types'')"
    and "sch \<in> set (findall (prune_tree K b c) (XSD_NS, ''schema''))"
  then obtain s where "sch = prune_tree K True s" "tag s = (XSD_NS, ''schema'')"
    by (auto simp: findall_def children_prune_tree)
  then show ?thesis by (simp add: schema_pruned_only_retained)
qed

lemma schemas_of_prune_tree:
  "sch \<in> set (schemas_of (prune_tree K b n)) \<Longrightarrow> only_retained K sch"
proof (induction n arbitrary: b)
  case (Node i t as cs)
  from Node.prems obtain c where cin: "c \<in> set cs" and
    sch: "sch \<in> set ((if tag c = (WSDL_NS, ''types'')
             then findall (prune_tree K (t = (WSDL_NS, ''types'')) c) (XSD_NS, ''schema'') else [])
           @ schemas_of (prune_tree K (t = (WSDL_NS, ''types'')) c))"
    by auto
  from sch Node.IH [OF cin] show ?case
    by (auto split: if_splits dest: types_child_only_retained)
qed

lemma schemas_of_prune_schemas:
  assumes "sch \<in> set (schemas_of (prune_schemas K root))"
  shows "only_retained K sch"
proof -
  from assms obtain c where
    sch: "sch \<in> set ((if tag c = (WSDL_NS, ''types'')
             then findall (prune_tree K False c) (XSD_NS, ''schema'') else [])
           @ schemas_of (prune_tree K False c))"
    by (cases root) (auto simp: prune_schemas_def set_children_def)
  then show ?thesis
    by (auto split: if_splits dest: types_child_only_retained schemas_of_prune_tree)
qed

lemma ns_distinct [simp]:
  "WSDL_NS \<noteq> XSD_NS" "XSD_NS \<noteq> WSDL_NS" "WSDL_NS \<noteq> WSP_NS" "WSP_NS \<noteq> WSDL_NS"
  "WSDL_NS \<noteq> SOAPBIND_NS" "SOAPBIND_NS \<noteq> WSDL_NS" "XSD_NS \<noteq> WSP_NS" "WSP_NS \<noteq> XSD_NS"
  "XSD_NS \<noteq> SOAPBIND_NS" "SOAPBIND_NS \<noteq> XSD_NS" "WSP_NS \<noteq> SOAPBIND_NS" "SOAPBIND_NS \<noteq> WSP_NS"
  by (simp_all add: WSDL_NS_def XSD_NS_def WSP_NS_def SOAPBIND_NS_def)

lemma ex_schemas: "schemas_of ex_root = [ex_schema]"
  by code_simp

lemma ex_by_name:
  "build_by_name (schemas_of ex_root) =
     [((Some ''urn:t'', Some ''GetReq''), ex_GetReq), ((Some ''urn:t'', Some ''GetT''), ex_GetT),
      ((Some ''urn:t'', Some ''IdType''), ex_IdType), ((Some ''urn:t'', Some ''Note''), ex_Note)]"
  by code_simp

lemma ex_resolve [simp]:
  "resolve_qname plain_QName ex_nsmap ''tns:GetT'' = Inr (Some ''urn:t'', ''GetT'')"
  "resolve_qname plain_QName ex_nsmap ''tns:IdType'' = Inr (Some ''urn:t'', ''IdType'')"
  "resolve_qname plain_QName ex_nsmap ''tns:GetReq'' = Inr (Some ''urn:t'', ''GetReq'')"
  "resolve_qname plain_QName ex_nsmap ''tns:Note'' = Inr (Some ''urn:t'', ''Note'')"
  "resolve_qname plain_QName ex_nsmap ''xsd:string'' = Inr (Some XSD_NS, ''string'')"
  by (simp_all add: resolve_qname_def split_colon_def plain_QName_def ex_nsmap_def)

text \<open>
  Claim C8. A reference whose key has no declaring node in the index built from the schemas
  of the document is a leaf of the closure: the pass that pops it marks the key, pushes
  nothing and raises nothing, so the run goes on as if the key had been marked from the
  start, and a run that ends holds the key in the retained set.
\<close>

theorem unresolved_reference_is_leaf:
  assumes "by_name_get (build_by_name (schemas_of root)) (qkey qn) = []"
  shows "bfs_step Q nsm (build_by_name (schemas_of root)) (queue @ [qn], keep)
           = Inr (queue, insert (qkey qn) keep)
         \<and> bfs Q nsm (build_by_name (schemas_of root)) (queue @ [qn]) keep
           = bfs Q nsm (build_by_name (schemas_of root)) queue (insert (qkey qn) keep)
         \<and> (\<forall>K. bfs Q nsm (build_by_name (schemas_of root)) (queue @ [qn]) keep = Inr K
               \<longrightarrow> qkey qn \<in> K)"
proof -
  let ?bn = "build_by_name (schemas_of root)"
  have step: "bfs_step Q nsm ?bn (queue @ [qn], keep) = Inr (queue, insert (qkey qn) keep)"
    using assms by (rule bfs_step_leaf)
  then have run: "bfs Q nsm ?bn (queue @ [qn]) keep = bfs Q nsm ?bn queue (insert (qkey qn) keep)"
    by (simp add: bfs.simps [of _ _ _ "queue @ [qn]"])
  have "qkey qn \<in> K" if "bfs Q nsm ?bn (queue @ [qn]) keep = Inr K" for K
    using bfs_keep_subset [of Q nsm ?bn queue "insert (qkey qn) keep" K] that run by simp
  with step run show ?thesis by blast
qed

theorem unresolved_reference_is_leaf_witness:
  "bfs_step plain_QName ex_nsmap (build_by_name (schemas_of ex_root))
       ([(Some ''urn:t'', ''GetReq'')] @ [(Some XSD_NS, ''string'')], {})
     = Inr ([(Some ''urn:t'', ''GetReq'')], {(Some XSD_NS, Some ''string'')})"
  using unresolved_reference_is_leaf [of ex_root "(Some XSD_NS, ''string'')" plain_QName ex_nsmap
      "[(Some ''urn:t'', ''GetReq'')]" "{}"]
  by (simp add: ex_by_name by_name_get_def qkey_def)

lemma resolve_refs_filter:
  "resolve_refs Q nsm (filter (\<lambda>v. CHR '':'' \<in> set v) vs) = resolve_refs Q nsm vs"
  by (induction vs) (auto split: sum.splits)

lemma resolve_refs_resolve_list:
  "resolve_refs Q nsm vs = resolve_list Q nsm (filter (\<lambda>v. CHR '':'' \<in> set v) vs)"
  by (induction vs) (auto split: sum.splits)

lemma ex_ref_values_GetT: "ref_values ex_GetT = [''tns:IdType'', ''tns:GetT'', ''Note'']"
  by code_simp

lemma ex_step_GetT:
  "bfs_step plain_QName ex_nsmap (build_by_name (schemas_of ex_root))
       ([(Some ''urn:t'', ''GetT'')], {})
     = Inr ([(Some ''urn:t'', ''IdType''), (Some ''urn:t'', ''GetT'')],
            {(Some ''urn:t'', Some ''GetT'')})"
  by (simp add: bfs_step_def Let_def qkey_def ex_by_name by_name_get_def add_refs_def
      ex_ref_values_GetT)

text \<open>
  Claim C2 as the specification states it fails in its last part, "a key is never pushed
  onto the worklist again once it has been marked": \<^verbatim>\<open>add_refs\<close> appends every prefixed
  reference without looking at \<^verbatim>\<open>keep\<close>. In the example the complex type \<^verbatim>\<open>GetT\<close> has a
  child of type \<^verbatim>\<open>tns:GetT\<close>; the pass that pops and marks \<^verbatim>\<open>GetT\<close> leaves \<^verbatim>\<open>GetT\<close> on the
  worklist again.
\<close>

theorem marked_key_is_pushed_again:
  "bfs_step plain_QName ex_nsmap (build_by_name (schemas_of ex_root))
       ([(Some ''urn:t'', ''GetT'')], {})
     = Inr ([(Some ''urn:t'', ''IdType''), (Some ''urn:t'', ''GetT'')],
            {qkey (Some ''urn:t'', ''GetT'')})"
  by (simp add: ex_step_GetT qkey_def)

text \<open>
  Claim C2, amended. For every index, worklist and retained set the closure terminates:
  some number of passes of the loop body gives the result of the loop (the retained set,
  or the error of a reference the name constructor rejects). A pass leaves the retained
  set with the popped key added, so the set only grows and holds a key once. When the
  popped key was already marked the pass pushes nothing and expands nothing; otherwise the
  key is marked in the same pass that appends the resolved prefixed references of its
  declaring nodes to the rest of the worklist. So a marked key can be pushed again, but it
  is expanded only in the pass that marks it.
\<close>

theorem worklist_closure_terminates:
  "(\<exists>n. bfs_fuel n Q nsm by_name queue keep = Some (bfs Q nsm by_name queue keep))
   \<and> (queue \<noteq> [] \<longrightarrow> bfs_step Q nsm by_name (queue, keep) = Inr (queue', keep') \<longrightarrow>
        keep' = insert (qkey (last queue)) keep
        \<and> (qkey (last queue) \<in> keep \<longrightarrow> queue' = butlast queue)
        \<and> (qkey (last queue) \<notin> keep \<longrightarrow>
             (\<exists>pushed. queue' = butlast queue @ pushed
                \<and> resolve_refs Q nsm
                     (concat (map ref_values (by_name_get by_name (qkey (last queue)))))
                   = Inr pushed)))"
proof -
  have "keep' = insert (qkey (last queue)) keep"
    if "bfs_step Q nsm by_name (queue, keep) = Inr (queue', keep')"
    using bfs_step_keep [OF that] by simp
  moreover have "queue' = butlast queue"
    if "bfs_step Q nsm by_name (queue, keep) = Inr (queue', keep')" "qkey (last queue) \<in> keep"
    using that by (simp add: bfs_step_def Let_def)
  ultimately show ?thesis
    using bfs_fuel_enough [of Q nsm by_name queue keep] bfs_step_pushes [of Q nsm by_name queue keep queue' keep']
    by blast
qed

theorem worklist_closure_terminates_witness:
  "(\<exists>n. bfs_fuel n plain_QName ex_nsmap (build_by_name (schemas_of ex_root))
            [(Some ''urn:t'', ''GetT'')] {}
          = Some (bfs plain_QName ex_nsmap (build_by_name (schemas_of ex_root))
                    [(Some ''urn:t'', ''GetT'')] {}))
   \<and> (\<exists>pushed. [(Some ''urn:t'', ''IdType''), (Some ''urn:t'', ''GetT'')] = pushed
         \<and> resolve_refs plain_QName ex_nsmap
              (concat (map ref_values (by_name_get (build_by_name (schemas_of ex_root))
                 (Some ''urn:t'', Some ''GetT''))))
            = Inr pushed)"
  using worklist_closure_terminates [of plain_QName ex_nsmap "build_by_name (schemas_of ex_root)"
      "[(Some ''urn:t'', ''GetT'')]" "{}"
      "[(Some ''urn:t'', ''IdType''), (Some ''urn:t'', ''GetT'')]"
      "{(Some ''urn:t'', Some ''GetT'')}"]
  by (simp add: ex_step_GetT qkey_def)

lemma ex_reachable:
  "reachable_schema_items plain_QName ex_nsmap ex_root [(Some ''urn:t'', ''GetReq'')]
     = Inr {(Some ''urn:t'', Some ''GetReq''), (Some ''urn:t'', Some ''GetT''),
            (Some ''urn:t'', Some ''IdType''), (Some XSD_NS, Some ''string'')}"
  by code_simp

text \<open>
  Claim C10. \<^verbatim>\<open>add_refs\<close> resolves and pushes the \<^verbatim>\<open>type\<close>, \<^verbatim>\<open>ref\<close> and \<^verbatim>\<open>base\<close> values
  that hold a colon and nothing else, so the values without a colon are never followed.
  Every key of the retained set is a seed or is reached from the seeds by a chain of
  prefixed references, and after schema pruning every named item of every schema of the
  document has its key in the retained set: an item that only unprefixed values refer to
  is not retained and is deleted.
\<close>

theorem unprefixed_references_not_followed:
  assumes "reachable_schema_items Q nsm root seeds = Inr K"
  shows "add_refs Q nsm n queue =
           (case resolve_list Q nsm (filter (\<lambda>v. CHR '':'' \<in> set v) (ref_values n)) of
              Inl e \<Rightarrow> Inl e
            | Inr qns \<Rightarrow> Inr (queue @ qns))
         \<and> K \<subseteq> reachable_keys Q nsm (build_by_name (schemas_of root)) seeds
         \<and> (\<forall>sch \<in> set (schemas_of (prune_schemas K root)). only_retained K sch)"
proof -
  have "K \<subseteq> reachable_keys Q nsm (build_by_name (schemas_of root)) seeds"
    using assms unfolding reachable_schema_items_def
    by (rule bfs_within_reachable) (auto intro: reachable_keys.seed)
  then show ?thesis
    by (simp add: add_refs_def resolve_refs_resolve_list schemas_of_prune_schemas)
qed


lemma ex_prune_schemas:
  "schemas_of (prune_schemas
       {(Some ''urn:t'', Some ''GetReq''), (Some ''urn:t'', Some ''GetT''),
        (Some ''urn:t'', Some ''IdType''), (Some XSD_NS, Some ''string'')} ex_root) =
     [ex_schema_pruned]"
  by code_simp

theorem unprefixed_references_not_followed_witness:
  "{(Some ''urn:t'', Some ''GetReq''), (Some ''urn:t'', Some ''GetT''),
    (Some ''urn:t'', Some ''IdType''), (Some XSD_NS, Some ''string'')}
     \<subseteq> reachable_keys plain_QName ex_nsmap (build_by_name (schemas_of ex_root))
         [(Some ''urn:t'', ''GetReq'')]
   \<and> only_retained
       {(Some ''urn:t'', Some ''GetReq''), (Some ''urn:t'', Some ''GetT''),
        (Some ''urn:t'', Some ''IdType''), (Some XSD_NS, Some ''string'')}
       ex_schema_pruned
   \<and> ex_Note \<notin> set (children ex_schema_pruned)"
proof -
  have "ex_Note \<notin> set (children ex_schema_pruned)" by code_simp
  with unprefixed_references_not_followed [OF ex_reachable] show ?thesis
    by (simp add: ex_prune_schemas)
qed

lemma set_children_sel [simp]:
  "ident (set_children el cs) = ident el" "tag (set_children el cs) = tag el"
  "attrs (set_children el cs) = attrs el" "children (set_children el cs) = cs"
  by (simp_all add: set_children_def)

lemma get_set_children [simp]: "get (set_children el cs) a = get el a"
  by (simp add: get_def)

lemma remove_where_sel [simp]:
  "ident (remove_where t P el) = ident el" "tag (remove_where t P el) = tag el"
  "attrs (remove_where t P el) = attrs el" "get (remove_where t P el) a = get el a"
  by (simp_all add: remove_where_def)

lemma children_remove_where:
  "children (remove_where t P el) = filter (\<lambda>c. \<not> (tag c = t \<and> P c)) (children el)"
  by (simp add: remove_where_def)

lemma findall_remove_where_other:
  "t' \<noteq> t \<Longrightarrow> findall (remove_where t P el) t' = findall el t'"
  by (auto simp: findall_def children_remove_where intro: filter_cong)

lemma findall_remove_where_same:
  "findall (remove_where t P el) t = filter (\<lambda>c. \<not> P c) (findall el t)"
  by (auto simp: findall_def children_remove_where intro: filter_cong)

section \<open>Properties of the pipeline\<close>

text \<open>
  Claim C5. When the target service is not found, or it has no port, or the binding of its
  first port cannot be resolved (the lookup raises or finds none), or the port type of that
  binding cannot be resolved, the run raises, and the tree it leaves is the input tree:
  nothing has been deleted or inserted.
\<close>

theorem lookup_failure_leaves_tree:
  assumes "(\<exists>e. find_service root service_name = Inl e)
     \<or> (\<exists>service. find_service root service_name = Inr service
           \<and> (findall service (WSDL_NS, ''port'') = []
              \<or> (\<exists>port0 ports. findall service (WSDL_NS, ''port'') = port0 # ports
                    \<and> ((\<forall>b. binding_for_port root port0 \<noteq> Inr (Some b))
                       \<or> (\<exists>b. binding_for_port root port0 = Inr (Some b)
                             \<and> (\<forall>pt. porttype_for_binding root b \<noteq> Inr (Some pt)))))))"
  shows "\<exists>e. prune_wsdl Q nsm root keep_ops policy_tree service_name = Inl (e, root)"
  using assms
  by (auto simp: prune_wsdl_def split: sum.splits list.splits option.splits)

lemma ex_no_service: "find_service ex_root ''Nope'' = Inl ValueError"
  by code_simp

theorem lookup_failure_leaves_tree_witness:
  "(\<exists>e. prune_wsdl plain_QName ex_nsmap ex_root {''Get''} None ''Nope'' = Inl (e, ex_root))"
  using lookup_failure_leaves_tree [of ex_root "''Nope''" plain_QName ex_nsmap "{''Get''}" None]
  by (simp add: ex_no_service)

lemma set_children_id [simp]: "set_children r (children r) = r"
  by (cases r) (simp add: set_children_def)

lemma set_children_twice [simp]: "set_children (set_children r xs) ys = set_children r ys"
  by (simp add: set_children_def)

lemma replace_child_sel [simp]:
  "ident (replace_child x r) = ident r" "tag (replace_child x r) = tag r"
  "attrs (replace_child x r) = attrs r"
  by (simp_all add: replace_child_def)

lemma children_replace_child:
  "children (replace_child x r) = map (\<lambda>c. if ident c = ident x then x else c) (children r)"
  by (simp add: replace_child_def)

lemma children_remove_child:
  "children (remove_child x r) = filter (\<lambda>c. ident c \<noteq> ident x) (children r)"
  by (simp add: remove_child_def)

lemma prune_binding_operations_sel [simp]:
  "ident (prune_binding_operations b keep) = ident b"
  "tag (prune_binding_operations b keep) = tag b"
  "get (prune_binding_operations b keep) a = get b a"
  by (simp_all add: prune_binding_operations_def)

lemma is_soap12_prune_binding_operations [simp]:
  "is_soap12_binding (prune_binding_operations b keep) = is_soap12_binding b"
  by (simp add: is_soap12_binding_def find_first_def prune_binding_operations_def
      findall_remove_where_other)

lemma attach_policy_sel:
  "attach_policy_to_binding b p = Inr b2 \<Longrightarrow> ident b2 = ident b \<and> tag b2 = tag b"
  "attach_policy_to_binding b p = Inl (e, b2) \<Longrightarrow> ident b2 = ident b \<and> tag b2 = tag b \<and> e = IndexError"
  by (auto simp: attach_policy_to_binding_def Let_def split: list.splits)


lemma loop_others:
  "\<forall>b \<in> set bs. ident b \<noteq> ident tb
   \<Longrightarrow> prune_bindings_loop tb keep pol bs r
       = Inr (set_children r (filter (\<lambda>c. ident c \<notin> ident ` set bs) (children r)))"
proof (induction bs arbitrary: r)
  case Nil
  then show ?case by simp
next
  case (Cons b bs)
  have "filter (\<lambda>c. ident c \<notin> ident ` set bs) (filter (\<lambda>c. ident c \<noteq> ident b) (children r))
      = filter (\<lambda>c. ident c \<notin> ident ` set (b # bs)) (children r)"
    by (auto intro: filter_cong)
  with Cons show ?case by (simp add: remove_child_def)
qed

lemma loop_prefix:
  "\<forall>b \<in> set bs. ident b \<noteq> ident tb
   \<Longrightarrow> prune_bindings_loop tb keep pol (bs @ rest) r
       = prune_bindings_loop tb keep pol rest
           (set_children r (filter (\<lambda>c. ident c \<notin> ident ` set bs) (children r)))"
proof (induction bs arbitrary: r)
  case Nil
  then show ?case by simp
next
  case (Cons b bs)
  have "filter (\<lambda>c. ident c \<notin> ident ` set bs) (filter (\<lambda>c. ident c \<noteq> ident b) (children r))
      = filter (\<lambda>c. ident c \<notin> ident ` set (b # bs)) (children r)"
    by (auto intro: filter_cong)
  with Cons show ?case by (simp add: remove_child_def)
qed

text \<open>The binding children of a tree in which the others have gone and the target has
  been replaced.\<close>

lemma target_alone:
  assumes d: "distinct (map ident (o1 @ b # o2))" and x: "ident x = ident b"
  shows "filter (\<lambda>c. ident c \<notin> ident ` set o2)
           (map (\<lambda>c. if ident c = ident b then x else c)
              (filter (\<lambda>c. ident c \<notin> ident ` set o1) (o1 @ b # o2))) = [x]"
proof -
  from d have b1: "ident b \<notin> ident ` set o1" and b2: "ident b \<notin> ident ` set o2"
    and o21: "\<forall>c \<in> set o2. ident c \<notin> ident ` set o1" by auto
  have "filter (\<lambda>c. ident c \<notin> ident ` set o1) (o1 @ b # o2) = b # o2"
    using b1 o21 by (simp add: filter_empty_conv filter_id_conv)
  moreover have "map (\<lambda>c. if ident c = ident b then x else c) o2 = o2"
  proof (rule map_idI)
    fix c assume "c \<in> set o2"
    with b2 have "ident c \<noteq> ident b" by (metis imageI)
    then show "(if ident c = ident b then x else c) = c" by simp
  qed
  moreover have "filter (\<lambda>c. ident c \<notin> ident ` set o2) o2 = []"
    by (simp add: filter_empty_conv)
  ultimately show ?thesis using b2 x by simp
qed

lemma prune_bindings_split:
  assumes bs: "findall root (WSDL_NS, ''binding'') = o1 @ b # o2"
    and o1: "\<forall>c \<in> set o1. ident c \<noteq> ident tb" and o2: "\<forall>c \<in> set o2. ident c \<noteq> ident tb"
    and b: "ident b = ident tb"
  shows "prune_bindings root tb keep pol =
     (let b1 = prune_binding_operations b keep;
          rA = replace_child b1
                 (set_children root (filter (\<lambda>c. ident c \<notin> ident ` set o1) (children root)))
      in case pol of
           None \<Rightarrow>
             Inr (set_children rA (filter (\<lambda>c. ident c \<notin> ident ` set o2) (children rA)))
         | Some p \<Rightarrow>
             if is_soap12_binding b then
               (case attach_policy_to_binding b1 p of
                  Inl (e, b2) \<Rightarrow> Inl (e, replace_child b2 (prune_existing_policy rA))
                | Inr b2 \<Rightarrow>
                    Inr (set_children (replace_child b2 (prune_existing_policy rA))
                          (filter (\<lambda>c. ident c \<notin> ident ` set o2)
                             (children (replace_child b2 (prune_existing_policy rA))))))
             else Inr (set_children rA (filter (\<lambda>c. ident c \<notin> ident ` set o2) (children rA))))"
  unfolding prune_bindings_def bs loop_prefix [OF o1]
  by (simp add: b Let_def loop_others [OF o2] split: option.splits sum.splits prod.splits)

lemma filter_swap: "filter P (filter Q xs) = filter Q (filter P xs)"
  by (auto intro: filter_cong)

lemma filter_tag_map:
  "\<forall>c \<in> set xs. tag (f c) = tag c
   \<Longrightarrow> filter (\<lambda>c. tag c = t) (map f xs) = map f (filter (\<lambda>c. tag c = t) xs)"
  by (induction xs) auto

lemma distinct_ident_eq:
  "distinct (map ident cs) \<Longrightarrow> c \<in> set cs \<Longrightarrow> b \<in> set cs \<Longrightarrow> ident c = ident b \<Longrightarrow> c = b"
  by (auto simp: distinct_map dest: inj_onD)

lemma split_target:
  assumes d: "distinct (map ident (children root))"
    and b: "b \<in> set (findall root t)"
  shows "\<exists>o1 o2. findall root t = o1 @ b # o2
           \<and> (\<forall>c \<in> set o1. ident c \<noteq> ident b) \<and> (\<forall>c \<in> set o2. ident c \<noteq> ident b)"
proof -
  from d have df: "distinct (map ident (findall root t))"
    by (simp add: findall_def distinct_map_filter)
  from b obtain o1 o2 where s: "findall root t = o1 @ b # o2" by (auto dest: split_list)
  with df have "distinct (map ident (o1 @ b # o2))" by simp
  then have "ident b \<notin> ident ` set o1" "ident b \<notin> ident ` set o2" by auto
  then have "\<forall>c \<in> set o1. ident c \<noteq> ident b" "\<forall>c \<in> set o2. ident c \<noteq> ident b"
    by (metis imageI)+
  with s show ?thesis by (intro exI conjI)
qed

text \<open>The binding children after the loop, when the target ends as \<open>x\<close>, with or without
  the root-level policy nodes removed in between.\<close>

lemma bindings_after_loop:
  assumes d: "distinct (map ident (children root))"
    and bs: "findall root (WSDL_NS, ''binding'') = o1 @ b # o2"
    and x: "ident x = ident b" "tag x = (WSDL_NS, ''binding'')"
    and y: "ident y = ident b" "tag y = (WSDL_NS, ''binding'')"
  defines "rA \<equiv> replace_child y
                 (set_children root (filter (\<lambda>c. ident c \<notin> ident ` set o1) (children root)))"
  shows "findall (set_children rA (filter (\<lambda>c. ident c \<notin> ident ` set o2) (children rA)))
            (WSDL_NS, ''binding'') = [y]"
    and "findall (set_children (replace_child x (prune_existing_policy rA))
                    (filter (\<lambda>c. ident c \<notin> ident ` set o2)
                       (children (replace_child x (prune_existing_policy rA)))))
            (WSDL_NS, ''binding'') = [x]"
proof -
  let ?B = "\<lambda>c. tag c = (WSDL_NS, ''binding'')"
  let ?cs1 = "filter (\<lambda>c. ident c \<notin> ident ` set o1) (children root)"
  from bs have "b \<in> set (findall root (WSDL_NS, ''binding''))" by simp
  then have bin: "b \<in> set (children root)" and tb: "tag b = (WSDL_NS, ''binding'')"
    by (auto simp: findall_def)
  have only: "c = b" if "c \<in> set (children root)" "ident c = ident b" for c
    using distinct_ident_eq [OF d that(1) bin that(2)] .
  from d bs have dd: "distinct (map ident (o1 @ b # o2))"
    by (metis distinct_map_filter findall_def)
  have cA: "children rA = map (\<lambda>c. if ident c = ident b then y else c) ?cs1"
    by (simp add: rA_def children_replace_child y)
  have tagA: "\<forall>c \<in> set ?cs1. tag (if ident c = ident b then y else c) = tag c"
  proof
    fix c assume "c \<in> set ?cs1"
    then have cin: "c \<in> set (children root)" by simp
    show "tag (if ident c = ident b then y else c) = tag c"
    proof (cases "ident c = ident b")
      case True
      with only cin have "c = b" by blast
      with True tb y show ?thesis by simp
    next
      case False
      then show ?thesis by simp
    qed
  qed
  have B1: "filter ?B ?cs1 = filter (\<lambda>c. ident c \<notin> ident ` set o1) (o1 @ b # o2)"
    using bs by (simp only: findall_def filter_swap [of ?B])
  have BA: "filter ?B (children rA)
      = map (\<lambda>c. if ident c = ident b then y else c)
          (filter (\<lambda>c. ident c \<notin> ident ` set o1) (o1 @ b # o2))"
    by (simp only: cA filter_tag_map [OF tagA] B1)
  show "findall (set_children rA (filter (\<lambda>c. ident c \<notin> ident ` set o2) (children rA)))
            (WSDL_NS, ''binding'') = [y]"
    using target_alone [OF dd y(1)]
    by (simp only: findall_def set_children_sel filter_swap [of ?B] BA)
  let ?cB = "children (prune_existing_policy rA)"
  have cB: "?cB = filter (\<lambda>c. tag c \<noteq> (WSP_NS, ''UsingPolicy'') \<and> tag c \<noteq> (WSP_NS, ''Policy''))
                    (children rA)"
    by (auto simp: prune_existing_policy_def children_remove_where intro: filter_cong)
  have BB: "filter ?B ?cB = filter ?B (children rA)"
    unfolding cB by (auto simp: intro: filter_cong)
  have idA: "c = y" if "c \<in> set (children rA)" "ident c = ident b" for c
    using that only y unfolding cA by (auto split: if_splits)
  have tagB: "\<forall>c \<in> set ?cB. tag (if ident c = ident b then x else c) = tag c"
    using idA x y unfolding cB by auto
  have "filter ?B (children (replace_child x (prune_existing_policy rA)))
      = map (\<lambda>c. if ident c = ident b then x else c) (filter ?B ?cB)"
    by (simp only: children_replace_child x filter_tag_map [OF tagB])
  also have "\<dots> = map (\<lambda>c. if ident c = ident b then x else c)
                     (filter (\<lambda>c. ident c \<notin> ident ` set o1) (o1 @ b # o2))"
    by (simp add: BB BA y o_def cong: if_cong)
  finally show "findall (set_children (replace_child x (prune_existing_policy rA))
                    (filter (\<lambda>c. ident c \<notin> ident ` set o2)
                       (children (replace_child x (prune_existing_policy rA)))))
            (WSDL_NS, ''binding'') = [x]"
    using target_alone [OF dd x(1)]
    by (simp only: findall_def set_children_sel filter_swap [of ?B])
qed

text \<open>
  Claim C6. The policy mechanism is written for SOAP 1.2: the test is named
  \<^verbatim>\<open>is_soap12_binding\<close> and \<^verbatim>\<open>prune_bindings\<close> is commented "attach policy if SOAP 1.2". The
  test itself looks for \<^verbatim>\<open>soapbind:binding\<close>, the element of the SOAP 1.1 namespace
  \<^verbatim>\<open>http://schemas.xmlsoap.org/wsdl/soap/\<close>; \<^verbatim>\<open>SOAP12_NS\<close> is never used. So on a document whose
  surviving binding is a SOAP 1.2 binding the test is false and a supplied fragment is not
  spliced, while on the same document with a SOAP 1.1 binding the fragment is spliced: the
  splice does not happen exactly for the transport version the mechanism targets.
\<close>

theorem soap12_binding_is_not_spliced:
  "\<not> is_soap12_binding ex_binding12
   \<and> prune_wsdl plain_QName ex_nsmap ex_root12 {''Get''} (Some ex_policy) ''S''
       = Inr ex_root12_pruned
   \<and> is_soap12_binding ex_binding
   \<and> prune_wsdl plain_QName ex_nsmap ex_root {''Get''} (Some ex_policy) ''S''
       = Inr ex_root_spliced"
  by code_simp


subsection \<open>Lookups\<close>

lemma find_service_Inr:
  assumes "find_service root sn = Inr service"
  shows "service \<in> set (findall root (WSDL_NS, ''service''))"
proof -
  from assms obtain rest where
    "filter (\<lambda>svc. get svc ''name'' = Some sn) (findall root (WSDL_NS, ''service'')) = service # rest"
    by (simp add: find_service_def split: list.splits)
  then have "service \<in> set (filter (\<lambda>svc. get svc ''name'' = Some sn)
      (findall root (WSDL_NS, ''service'')))" by simp
  then show ?thesis by simp
qed

lemma resolve_qname_tag_Some:
  assumes "resolve_qname_tag root q t = Inr (Some el)"
  shows "el \<in> set (findall root t)
       \<and> (\<exists>s. q = Some s \<and> CHR '':'' \<in> set s \<and> get el ''name'' = Some (after_colon s))"
proof -
  from assms obtain s where q: "q = Some s" by (cases q) (simp_all add: resolve_qname_tag_def)
  from assms q have colon: "CHR '':'' \<in> set s"
    by (simp add: resolve_qname_tag_def split_colon_def split: if_splits)
  with assms q obtain rest where
    f: "filter (\<lambda>el. get el ''name'' = Some (after_colon s)) (findall root t) = el # rest"
    by (simp add: resolve_qname_tag_def split_colon_def after_colon_def split: list.splits)
  then have "el \<in> set (filter (\<lambda>el. get el ''name'' = Some (after_colon s)) (findall root t))"
    by simp
  then have "el \<in> set (findall root t)" "get el ''name'' = Some (after_colon s)" by simp_all
  with q colon show ?thesis by simp
qed

subsection \<open>Children of the root by tag, stage by stage\<close>

lemma findall_in_children: "c \<in> set (findall r t) \<Longrightarrow> c \<in> set (children r) \<and> tag c = t"
  by (simp add: findall_def)

lemma map_ident_replace_child [simp]:
  "map ident (children (replace_child x r)) = map ident (children r)"
  by (simp add: children_replace_child)

lemma findall_replace_child_other:
  assumes "tag x \<noteq> t" and "\<forall>c \<in> set (children r). ident c = ident x \<longrightarrow> tag c \<noteq> t"
  shows "findall (replace_child x r) t = findall r t"
proof -
  have "filter (\<lambda>c. tag c = t) (map (\<lambda>c. if ident c = ident x then x else c) cs)
      = filter (\<lambda>c. tag c = t) cs"
    if "\<forall>c \<in> set cs. ident c = ident x \<longrightarrow> tag c \<noteq> t" for cs
    using that assms(1) by (induction cs) simp_all
  from this [OF assms(2)] show ?thesis by (simp add: findall_def children_replace_child)
qed

lemma findall_replace_child_same:
  assumes "\<forall>c \<in> set (children r). ident c = ident x \<longrightarrow> tag c = tag x"
  shows "findall (replace_child x r) t = map (\<lambda>c. if ident c = ident x then x else c) (findall r t)"
proof -
  have "\<forall>c \<in> set (children r). tag (if ident c = ident x then x else c) = tag c"
    using assms by simp
  from filter_tag_map [OF this] show ?thesis by (simp add: findall_def children_replace_child)
qed

lemma only_child_with_ident:
  assumes d: "distinct (map ident (children r))" and x: "x \<in> set (children r)"
  shows "\<forall>c \<in> set (children r). ident c = ident x \<longrightarrow> c = x"
  using distinct_ident_eq [OF d _ x] by simp

lemma filter_ident_map:
  assumes d: "distinct (map ident xs)" and x: "x \<in> set xs" and f: "\<forall>c \<in> set xs. ident (f c) = ident c"
  shows "filter (\<lambda>c. ident c = ident x) (map f xs) = [f x]"
  using assms
proof (induction xs)
  case Nil
  then show ?case by simp
next
  case (Cons a xs)
  show ?case
  proof (cases "a = x")
    case True
    from Cons.prems(1) True have "\<forall>c \<in> set xs. ident c \<noteq> ident x" by (metis distinct.simps(2) imageI list.simps(9) set_map)
    with Cons.prems(3) have "filter (\<lambda>c. ident c = ident x) (map f xs) = []"
      by (simp add: filter_empty_conv)
    with True Cons.prems(3) show ?thesis by simp
  next
    case False
    with Cons.prems have xin: "x \<in> set xs" by simp
    with Cons.prems(1) have "ident a \<noteq> ident x" by (metis distinct.simps(2) imageI list.simps(9) set_map)
    with Cons.IH [OF _ xin] Cons.prems show ?thesis by simp
  qed
qed

lemma children_prune_schemas [simp]:
  "children (prune_schemas K r) = map (prune_tree K False) (children r)"
  by (simp add: prune_schemas_def)

lemma findall_prune_schemas:
  "findall (prune_schemas K r) t = map (prune_tree K False) (findall r t)"
  by (simp add: findall_def filter_tag_map)

lemma children_prune_tree_plain:
  "tag n \<noteq> (XSD_NS, ''schema'') \<Longrightarrow> tag n \<noteq> (WSDL_NS, ''types'')
   \<Longrightarrow> children (prune_tree K in_types n) = map (prune_tree K False) (children n)"
  by (simp add: children_prune_tree)

lemma findall_prune_tree_plain:
  "tag n \<noteq> (XSD_NS, ''schema'') \<Longrightarrow> tag n \<noteq> (WSDL_NS, ''types'')
   \<Longrightarrow> findall (prune_tree K in_types n) t = map (prune_tree K False) (findall n t)"
  by (simp add: findall_def children_prune_tree_plain filter_tag_map)

lemma prune_ports_Inr:
  "prune_ports name cs = Inr cs'
   \<Longrightarrow> cs' = filter (\<lambda>c. tag c = (WSDL_NS, ''port'') \<longrightarrow> port_refers name c) cs"
proof (induction cs arbitrary: cs')
  case Nil
  then show ?case by simp
next
  case (Cons c cs)
  show ?case
  proof (cases "tag c = (WSDL_NS, ''port'')")
    case False
    with Cons.prems obtain r where "prune_ports name cs = Inr r" "cs' = c # r"
      by (simp split: sum.splits prod.splits)
    with Cons.IH [of r] False show ?thesis by simp
  next
    case True
    show ?thesis
    proof (cases "port_refers name c")
      case False
      with True Cons.prems have "prune_ports name cs = Inr cs'"
        by (simp add: port_refers_def split: option.splits if_splits)
      with Cons.IH [of cs'] True False show ?thesis by simp
    next
      case pr: True
      with True Cons.prems obtain r where "prune_ports name cs = Inr r" "cs' = c # r"
        by (simp add: port_refers_def split: option.splits if_splits sum.splits prod.splits)
      with Cons.IH [of r] True pr show ?thesis by simp
    qed
  qed
qed

lemma filter_insert_at: "\<not> P x \<Longrightarrow> filter P (insert_at i x cs) = filter P cs"
proof -
  assume "\<not> P x"
  then have "filter P (insert_at i x cs) = filter P (take i cs) @ filter P (drop i cs)"
    by (simp add: insert_at_def)
  also have "\<dots> = filter P cs" by (metis filter_append append_take_drop_id)
  finally show ?thesis .
qed

lemma filter_remove_first:
  "\<forall>c. Q c \<longrightarrow> \<not> P c \<Longrightarrow> filter P (remove_first Q cs) = filter P cs"
  by (induction cs) auto

lemma attach_policy_findall_other:
  assumes a: "attach_policy_to_binding b p = Inr b2"
    and t: "t \<noteq> (WSP_NS, ''UsingPolicy'')" "t \<noteq> (WSP_NS, ''Policy'')"
  shows "findall b2 t = findall b t"
proof -
  from a obtain up rest pol rest' where
    up: "findall p (WSP_NS, ''UsingPolicy'') = up # rest"
    and pol: "findall (set_children p
         (remove_first (\<lambda>c. tag c = (WSP_NS, ''UsingPolicy'')) (children p)))
         (WSP_NS, ''Policy'') = pol # rest'"
    and b2: "b2 = set_children b (insert_at 2 pol
         (remove_first (\<lambda>c. tag c = (WSP_NS, ''Policy''))
            (insert_at 1 up
               (remove_first (\<lambda>c. tag c = (WSP_NS, ''UsingPolicy'')) (children b)))))"
    by (auto simp: attach_policy_to_binding_def Let_def split: list.splits)
  from up have "up \<in> set (findall p (WSP_NS, ''UsingPolicy''))" by simp
  then have tup: "tag up = (WSP_NS, ''UsingPolicy'')" by (simp add: findall_def)
  from pol have "pol \<in> set (findall (set_children p
         (remove_first (\<lambda>c. tag c = (WSP_NS, ''UsingPolicy'')) (children p)))
         (WSP_NS, ''Policy''))" by simp
  then have tpol: "tag pol = (WSP_NS, ''Policy'')" by (simp add: findall_def)
  from t tup tpol show ?thesis
    unfolding b2 findall_def set_children_sel
    by (simp add: filter_insert_at filter_remove_first)
qed

lemma findall_prune_existing_policy:
  "t \<noteq> (WSP_NS, ''UsingPolicy'') \<Longrightarrow> t \<noteq> (WSP_NS, ''Policy'')
   \<Longrightarrow> findall (prune_existing_policy r) t = findall r t"
  by (simp add: prune_existing_policy_def findall_remove_where_other)

lemma map_ident_prune_existing_policy:
  "distinct (map ident (children r)) \<Longrightarrow> distinct (map ident (children (prune_existing_policy r)))"
  by (simp add: prune_existing_policy_def children_remove_where distinct_map_filter)

lemma findall_filter_children:
  "findall (set_children r (filter P (children r))) t = filter P (findall r t)"
  by (simp only: findall_def set_children_sel filter_swap [of "\<lambda>c. tag c = t"])

text \<open>An element of another tag is not touched by the binding stage.\<close>

lemma prune_bindings_Inr_other:
  assumes d: "distinct (map ident (children root))"
    and b: "b \<in> set (findall root bt)" and bt: "bt = (WSDL_NS, ''binding'')"
    and tb: "ident b = ident target_binding"
    and run: "prune_bindings root target_binding keep_ops pol = Inr out"
    and t: "t \<noteq> bt" "t \<noteq> (WSP_NS, ''UsingPolicy'')" "t \<noteq> (WSP_NS, ''Policy'')"
  shows "findall out t = findall root t"
proof -
  from split_target [OF d b] obtain o1 o2 where
    bs: "findall root bt = o1 @ b # o2"
    and o1: "\<forall>c \<in> set o1. ident c \<noteq> ident b" and o2: "\<forall>c \<in> set o2. ident c \<noteq> ident b"
    by (elim exE conjE)
  from b have bin: "b \<in> set (children root)" and tagb: "tag b = bt" by (simp_all add: findall_def)
  let ?b1 = "prune_binding_operations b keep_ops"
  let ?r1 = "set_children root (filter (\<lambda>c. ident c \<notin> ident ` set o1) (children root))"
  let ?rA = "replace_child ?b1 ?r1"
  let ?out = "\<lambda>r. set_children r (filter (\<lambda>c. ident c \<notin> ident ` set o2) (children r))"
  note sp = prune_bindings_split [OF bs [unfolded bt] o1 [unfolded tb] o2 [unfolded tb] tb,
      of keep_ops pol]
  have others: "ident c \<notin> ident ` set o1 \<and> ident c \<notin> ident ` set o2"
    if c: "c \<in> set (findall root t)" for c
  proof -
    from c have cin: "c \<in> set (children root)" and tc: "tag c = t" by (simp_all add: findall_def)
    have "ident c \<noteq> ident ob" if "ob \<in> set (o1 @ b # o2)" for ob
    proof
      assume e: "ident c = ident ob"
      from that bs have "ob \<in> set (findall root bt)" by simp
      then have oin: "ob \<in> set (children root)" and "tag ob = bt" by (simp_all add: findall_def)
      from distinct_ident_eq [OF d cin oin e] \<open>tag ob = bt\<close> tc t(1) show False by simp
    qed
    then show ?thesis by auto
  qed
  have r1: "findall ?r1 t = findall root t"
    unfolding findall_filter_children using others by (simp add: filter_id_conv)
  have inv1: "\<forall>c \<in> set (children ?r1). ident c = ident ?b1 \<longrightarrow> tag c \<noteq> t"
  proof (intro ballI impI)
    fix c assume "c \<in> set (children ?r1)" and e: "ident c = ident ?b1"
    then have cin: "c \<in> set (children root)" by simp
    from e have "ident c = ident b" by simp
    from distinct_ident_eq [OF d cin bin this] tagb t(1) show "tag c \<noteq> t" by simp
  qed
  have rA: "findall ?rA t = findall root t"
    using findall_replace_child_other [OF _ inv1] tagb t(1) r1 by simp
  have dA: "distinct (map ident (children ?rA))"
    using d by (simp add: distinct_map_filter)
  have b1A: "?b1 \<in> set (children ?rA)"
  proof -
    from o1 have "ident b \<notin> ident ` set o1" by (metis imageE)
    with bin have "b \<in> set (children ?r1)" by simp
    then show ?thesis by (force simp: children_replace_child)
  qed
  have out_other: "findall (?out r) t = findall root t" if "findall r t = findall root t" for r
    unfolding findall_filter_children that using others by (simp add: filter_id_conv)
  show ?thesis
  proof (cases "\<exists>p b2. pol = Some p \<and> is_soap12_binding b
      \<and> attach_policy_to_binding ?b1 p = Inr b2")
    case True
    then obtain p b2 where p: "pol = Some p" "is_soap12_binding b"
      "attach_policy_to_binding ?b1 p = Inr b2" by (elim exE conjE)
    from run have out: "out = ?out (replace_child b2 (prune_existing_policy ?rA))"
      unfolding sp by (simp add: p Let_def)
    from attach_policy_sel(1) [OF p(3)] have b2: "ident b2 = ident b" "tag b2 = bt"
      by (simp_all add: tagb)
    let ?rB = "prune_existing_policy ?rA"
    have rB: "findall ?rB t = findall root t"
      using findall_prune_existing_policy [OF t(2,3)] rA by simp
    have dB: "distinct (map ident (children ?rB))"
      using dA by (rule map_ident_prune_existing_policy)
    have b1B: "?b1 \<in> set (children ?rB)"
      using b1A by (simp add: prune_existing_policy_def children_remove_where tagb bt)
    have invB: "\<forall>c \<in> set (children ?rB). ident c = ident b2 \<longrightarrow> tag c \<noteq> t"
    proof (intro ballI impI)
      fix c assume cin: "c \<in> set (children ?rB)" and e: "ident c = ident b2"
      then have "ident c = ident ?b1" by (simp add: b2)
      from distinct_ident_eq [OF dB cin b1B this] tagb t(1) show "tag c \<noteq> t" by simp
    qed
    have "findall (replace_child b2 ?rB) t = findall root t"
      using findall_replace_child_other [OF _ invB] b2 t(1) rB by simp
    then show ?thesis unfolding out by (rule out_other)
  next
    case False
    with run have out: "out = ?out ?rA"
      unfolding sp
      by (cases pol; cases "is_soap12_binding b")
         (auto simp: Let_def split: sum.splits prod.splits)
    show ?thesis unfolding out using rA by (rule out_other)
  qed
qed

text \<open>What a binding stage that does not raise leaves: one binding, which is the target
  with its operations pruned and, when the splice applies, the policy pair put in.\<close>

lemma prune_bindings_Inr_binding:
  assumes d: "distinct (map ident (children root))"
    and b: "b \<in> set (findall root (WSDL_NS, ''binding''))"
    and tb: "ident b = ident target_binding"
    and run: "prune_bindings root target_binding keep_ops pol = Inr out"
  shows "\<exists>b4. findall out (WSDL_NS, ''binding'') = [b4] \<and> ident b4 = ident b
           \<and> (\<forall>t. t \<noteq> (WSP_NS, ''UsingPolicy'') \<longrightarrow> t \<noteq> (WSP_NS, ''Policy'')
                 \<longrightarrow> findall b4 t = findall (prune_binding_operations b keep_ops) t)
           \<and> distinct (map ident (children out))"
proof -
  from split_target [OF d b] obtain o1 o2 where
    bs: "findall root (WSDL_NS, ''binding'') = o1 @ b # o2"
    and o1: "\<forall>c \<in> set o1. ident c \<noteq> ident b" and o2: "\<forall>c \<in> set o2. ident c \<noteq> ident b"
    by (elim exE conjE)
  from b have tagb: "tag b = (WSDL_NS, ''binding'')" by (simp add: findall_def)
  let ?b1 = "prune_binding_operations b keep_ops"
  let ?r1 = "set_children root (filter (\<lambda>c. ident c \<notin> ident ` set o1) (children root))"
  let ?rA = "replace_child ?b1 ?r1"
  let ?out = "\<lambda>r. set_children r (filter (\<lambda>c. ident c \<notin> ident ` set o2) (children r))"
  note sp = prune_bindings_split [OF bs o1 [unfolded tb] o2 [unfolded tb] tb, of keep_ops pol]
  have b1: "ident ?b1 = ident b" "tag ?b1 = (WSDL_NS, ''binding'')"
    by (simp_all add: tagb)
  have dA: "distinct (map ident (children ?rA))"
    using d by (simp add: distinct_map_filter)
  show ?thesis
  proof (cases "\<exists>p b2. pol = Some p \<and> is_soap12_binding b
      \<and> attach_policy_to_binding ?b1 p = Inr b2")
    case True
    then obtain p b2 where p: "pol = Some p" "is_soap12_binding b"
      "attach_policy_to_binding ?b1 p = Inr b2" by (elim exE conjE)
    from run have out: "out = ?out (replace_child b2 (prune_existing_policy ?rA))"
      unfolding sp by (simp add: p Let_def)
    from attach_policy_sel(1) [OF p(3)] have b2: "ident b2 = ident b" "tag b2 = (WSDL_NS, ''binding'')"
      by (simp_all add: tagb)
    have 1: "findall out (WSDL_NS, ''binding'') = [b2]"
      unfolding out by (rule bindings_after_loop(2) [OF d bs b2 b1])
    have 2: "\<forall>t. t \<noteq> (WSP_NS, ''UsingPolicy'') \<longrightarrow> t \<noteq> (WSP_NS, ''Policy'')
                 \<longrightarrow> findall b2 t = findall ?b1 t"
      using attach_policy_findall_other [OF p(3)] by simp
    have 3: "distinct (map ident (children out))"
      unfolding out using map_ident_prune_existing_policy [OF dA]
      by (simp add: distinct_map_filter)
    from 1 b2(1) 2 3 show ?thesis by (intro exI conjI)
  next
    case False
    with run have out: "out = ?out ?rA"
      unfolding sp
      by (cases pol; cases "is_soap12_binding b")
         (auto simp: Let_def split: sum.splits prod.splits)
    have 1: "findall out (WSDL_NS, ''binding'') = [?b1]"
      unfolding out by (rule bindings_after_loop(1) [OF d bs b1 b1])
    have 3: "distinct (map ident (children out))"
      unfolding out using dA by (simp add: distinct_map_filter)
    have 2: "\<forall>t. t \<noteq> (WSP_NS, ''UsingPolicy'') \<longrightarrow> t \<noteq> (WSP_NS, ''Policy'')
                 \<longrightarrow> findall ?b1 t = findall ?b1 t" by simp
    from 1 b1(1) 2 3 show ?thesis by (intro exI conjI)
  qed
qed

lemma operation_names_prune:
  "(\<lambda>op. get op ''name'') ` set (findall (remove_where (WSDL_NS, ''operation'') (name_not_in keep) el)
       (WSDL_NS, ''operation''))
     = operation_names el \<inter> Some ` keep"
  by (auto simp: operation_names_def findall_remove_where_same name_not_in_def
      split: option.splits)

lemma operation_names_prune_binding_operations [simp]:
  "operation_names (prune_binding_operations b keep) = operation_names b \<inter> Some ` keep"
  unfolding prune_binding_operations_def operation_names_def [of "remove_where _ _ _"]
  by (rule operation_names_prune)

lemma operation_names_prune_porttype_operations [simp]:
  "operation_names (prune_porttype_operations pt keep) = operation_names pt \<inter> Some ` keep"
  unfolding prune_porttype_operations_def operation_names_def [of "remove_where _ _ _"]
  by (rule operation_names_prune)

lemma operation_names_prune_tree:
  "tag n \<noteq> (XSD_NS, ''schema'') \<Longrightarrow> tag n \<noteq> (WSDL_NS, ''types'')
   \<Longrightarrow> operation_names (prune_tree K in_types n) = operation_names n"
  by (simp add: operation_names_def findall_prune_tree_plain image_image)

subsection \<open>The tree before the binding stage\<close>

lemma prune_messages_sel [simp]:
  "children (prune_messages r msgs)
     = filter (\<lambda>c. \<not> (tag c = (WSDL_NS, ''message'')
          \<and> get c ''name'' \<notin> set (map (\<lambda>m. get m ''name'') msgs))) (children r)"
  by (simp add: prune_messages_def children_remove_where)

lemma findall_prune_messages_other:
  "t \<noteq> (WSDL_NS, ''message'') \<Longrightarrow> findall (prune_messages r msgs) t = findall r t"
  by (simp add: prune_messages_def findall_remove_where_other)

lemma prune_porttype_operations_sel [simp]:
  "ident (prune_porttype_operations pt keep) = ident pt"
  "tag (prune_porttype_operations pt keep) = tag pt"
  "get (prune_porttype_operations pt keep) a = get pt a"
  by (simp_all add: prune_porttype_operations_def)

lemma map_ident_prune_tree [simp]: "map (ident \<circ> prune_tree K b) xs = map ident xs"
  by simp

lemma stage3_distinct:
  assumes d: "distinct (map ident (children root))"
  shows "distinct (map ident (children (prune_schemas K
           (prune_messages (replace_child x root) msgs))))"
proof -
  have "distinct (map ident (children (replace_child x root)))" using d by simp
  then have "distinct (map ident (children (prune_messages (replace_child x root) msgs)))"
    by (simp only: prune_messages_sel distinct_map_filter)
  then show ?thesis by (simp only: children_prune_schemas map_map map_ident_prune_tree)
qed

lemma stage3_findall_other:
  assumes d: "distinct (map ident (children root))"
    and tp: "tp \<in> set (findall root pt)" and x: "ident x = ident tp" "tag x = pt"
    and t: "t \<noteq> pt" "t \<noteq> (WSDL_NS, ''message'')"
  shows "findall (prune_schemas K (prune_messages (replace_child x root) msgs)) t
           = map (prune_tree K False) (findall root t)"
proof -
  from tp have tpin: "tp \<in> set (children root)" and tagtp: "tag tp = pt"
    by (simp_all add: findall_def)
  have inv: "\<forall>c \<in> set (children root). ident c = ident x \<longrightarrow> tag c \<noteq> t"
  proof (intro ballI impI)
    fix c assume cin: "c \<in> set (children root)" and "ident c = ident x"
    then have "ident c = ident tp" by (simp add: x)
    from distinct_ident_eq [OF d cin tpin this] tagtp t(1) show "tag c \<noteq> t" by simp
  qed
  have "findall (replace_child x root) t = findall root t"
    by (rule findall_replace_child_other [OF _ inv]) (simp add: x t(1) [symmetric])
  then show ?thesis
    by (simp add: findall_prune_schemas findall_prune_messages_other [OF t(2)])
qed


subsection \<open>The splice, by the list operations it performs\<close>







lemma filter_map_same:
  "\<forall>c \<in> set xs. P (f c) = P c \<Longrightarrow> filter P (map f xs) = map f (filter P xs)"
  by (induction xs) auto



lemma set_children_same:
  "ident a = ident b \<Longrightarrow> tag a = tag b \<Longrightarrow> attrs a = attrs b
   \<Longrightarrow> set_children a cs = set_children b cs"
  by (simp add: set_children_def)








subsection \<open>A run that raises nothing, stage by stage\<close>

lemma prune_wsdl_Inr_stages:
  assumes run: "prune_wsdl Q nsm root keep_ops policy_tree service_name = Inr out"
    and svc: "find_service root service_name = Inr service"
    and ports: "findall service (WSDL_NS, ''port'') = port0 # ports"
    and tb: "binding_for_port root port0 = Inr (Some target_binding)"
    and tp: "porttype_for_binding root target_binding = Inr (Some target_porttype)"
  shows "\<exists>msgs seeds K root4 cs.
      find_messages (replace_child (prune_porttype_operations target_porttype keep_ops) root)
        (collect_messages_from_porttype (prune_porttype_operations target_porttype keep_ops))
        = Inr msgs
      \<and> collect_schema_qnames_from_messages Q nsm msgs = Inr seeds
      \<and> reachable_schema_items Q nsm
          (prune_messages (replace_child (prune_porttype_operations target_porttype keep_ops) root)
             msgs) seeds = Inr K
      \<and> prune_bindings
          (prune_schemas K (prune_messages
             (replace_child (prune_porttype_operations target_porttype keep_ops) root) msgs))
          target_binding keep_ops policy_tree = Inr root4
      \<and> prune_ports (get target_binding ''name'') (children (current root4 service)) = Inr cs
      \<and> out = prune_unused_porttypes
                (replace_child (set_children (current root4 service) cs) root4) target_porttype"
  using run
  by (simp add: prune_wsdl_def svc ports tb tp Let_def prune_service_ports_def
      split: sum.splits prod.splits)

lemma current_child:
  assumes d: "distinct (map ident (children r))" and x: "x \<in> set (children r)"
    and i: "ident x = ident el"
  shows "current r el = x"
proof -
  have "\<forall>c \<in> set (children r). ident (id c) = ident c" by simp
  from filter_ident_map [OF d x this] have "filter (\<lambda>c. ident c = ident x) (children r) = [x]"
    by simp
  then show ?thesis by (simp add: current_def i)
qed

text \<open>The root children of each tag after a run that raises nothing.\<close>

lemma prune_wsdl_Inr_tree:
  assumes d: "distinct (map ident (children root))"
    and run: "prune_wsdl Q nsm root keep_ops policy_tree service_name = Inr out"
    and svc: "find_service root service_name = Inr service"
    and ports: "findall service (WSDL_NS, ''port'') = port0 # ports"
    and tb: "binding_for_port root port0 = Inr (Some target_binding)"
    and tp: "porttype_for_binding root target_binding = Inr (Some target_porttype)"
  shows "\<exists>K b.
      findall out (WSDL_NS, ''binding'') = [b] \<and> ident b = ident target_binding
      \<and> (\<forall>t. t \<noteq> (WSP_NS, ''UsingPolicy'') \<longrightarrow> t \<noteq> (WSP_NS, ''Policy'')
            \<longrightarrow> findall b t
              = findall (prune_binding_operations (prune_tree K False target_binding) keep_ops) t)
      \<and> findall out (WSDL_NS, ''portType'')
          = [prune_tree K False (prune_porttype_operations target_porttype keep_ops)]
      \<and> findall out (WSDL_NS, ''service'')
          = map (\<lambda>s. if ident s = ident service
                      then set_children (prune_tree K False service)
                        (filter (\<lambda>c. tag c = (WSDL_NS, ''port'')
                                    \<longrightarrow> port_refers (get target_binding ''name'') c)
                           (children (prune_tree K False service)))
                      else prune_tree K False s)
              (findall root (WSDL_NS, ''service''))"
proof -
  let ?pt1 = "prune_porttype_operations target_porttype keep_ops"
  from prune_wsdl_Inr_stages [OF run svc ports tb tp] obtain msgs seeds K root4 cs where
    pb: "prune_bindings (prune_schemas K (prune_messages (replace_child ?pt1 root) msgs))
           target_binding keep_ops policy_tree = Inr root4"
    and pp: "prune_ports (get target_binding ''name'') (children (current root4 service)) = Inr cs"
    and out: "out = prune_unused_porttypes
                (replace_child (set_children (current root4 service) cs) root4) target_porttype"
    by (elim exE conjE)
  let ?root3 = "prune_schemas K (prune_messages (replace_child ?pt1 root) msgs)"
  let ?BT = "(WSDL_NS, ''binding'')" and ?PT = "(WSDL_NS, ''portType'')"
  let ?ST = "(WSDL_NS, ''service'')"
  from resolve_qname_tag_Some [OF tb [unfolded binding_for_port_def]]
  have tbin: "target_binding \<in> set (findall root ?BT)" by (rule conjunct1)
  from resolve_qname_tag_Some [OF tp [unfolded porttype_for_binding_def]]
  have tpin: "target_porttype \<in> set (findall root ?PT)" by (rule conjunct1)
  then have tagtp: "tag target_porttype = ?PT" and tpc: "target_porttype \<in> set (children root)"
    by (simp_all add: findall_def)
  from find_service_Inr [OF svc] have sin: "service \<in> set (findall root ?ST)" .
  then have tags: "tag service = ?ST" and sc: "service \<in> set (children root)"
    by (simp_all add: findall_def)
  have d3: "distinct (map ident (children ?root3))" using d by (rule stage3_distinct)
  have f3: "findall ?root3 t = map (prune_tree K False) (findall root t)"
    if "t \<noteq> ?PT" "t \<noteq> (WSDL_NS, ''message'')" for t
    by (rule stage3_findall_other [OF d tpin _ _ that]) (simp_all add: tagtp)
  have b3: "prune_tree K False target_binding \<in> set (findall ?root3 ?BT)"
    using tbin by (simp add: f3)
  have pt3: "findall ?root3 ?PT
      = map (prune_tree K False) (map (\<lambda>c. if ident c = ident target_porttype then ?pt1 else c)
          (findall root ?PT))"
  proof -
    have "\<forall>c \<in> set (children root). ident c = ident ?pt1 \<longrightarrow> tag c = tag ?pt1"
      using only_child_with_ident [OF d tpc] by auto
    from findall_replace_child_same [OF this, of ?PT]
    show ?thesis
      by (simp add: findall_prune_schemas findall_prune_messages_other)
  qed
  from prune_bindings_Inr_binding [OF d3 b3 _ pb] obtain b4 where
    b4: "findall root4 ?BT = [b4]" "ident b4 = ident target_binding"
    "\<forall>t. t \<noteq> (WSP_NS, ''UsingPolicy'') \<longrightarrow> t \<noteq> (WSP_NS, ''Policy'')
        \<longrightarrow> findall b4 t
          = findall (prune_binding_operations (prune_tree K False target_binding) keep_ops) t"
    and d4: "distinct (map ident (children root4))"
    by (auto simp del: prune_tree.simps)
  have f4: "findall root4 t = findall ?root3 t"
    if "t \<noteq> ?BT" "t \<noteq> (WSP_NS, ''UsingPolicy'')" "t \<noteq> (WSP_NS, ''Policy'')" for t
    by (rule prune_bindings_Inr_other [OF d3 b3 refl _ pb that]) simp
  have s4: "findall root4 ?ST = map (prune_tree K False) (findall root ?ST)"
    by (simp add: f4 f3)
  have s4in: "prune_tree K False service \<in> set (children root4)"
  proof -
    from sin have "prune_tree K False service \<in> set (findall root4 ?ST)" by (simp add: s4)
    then show ?thesis by (simp add: findall_def)
  qed
  have cur: "current root4 service = prune_tree K False service"
    by (rule current_child [OF d4 s4in]) simp
  let ?svc = "set_children (prune_tree K False service) cs"
  let ?root5 = "replace_child ?svc root4"
  have only5: "\<forall>c \<in> set (children root4). ident c = ident ?svc \<longrightarrow> c = prune_tree K False service"
    using only_child_with_ident [OF d4 s4in] by simp
  have f5: "findall ?root5 t = findall root4 t" if "t \<noteq> ?ST" for t
  proof (rule findall_replace_child_other)
    show "tag ?svc \<noteq> t" using that by (simp add: tags)
    show "\<forall>c \<in> set (children root4). ident c = ident ?svc \<longrightarrow> tag c \<noteq> t"
      using only5 that by (auto simp: tags simp del: prune_tree.simps)
  qed
  have s5: "findall ?root5 ?ST
      = map (\<lambda>c. if ident c = ident ?svc then ?svc else c) (findall root4 ?ST)"
  proof (rule findall_replace_child_same)
    show "\<forall>c \<in> set (children root4). ident c = ident ?svc \<longrightarrow> tag c = tag ?svc"
      using only5 by (auto simp: tags simp del: prune_tree.simps)
  qed
  have out': "out = prune_unused_porttypes ?root5 target_porttype"
    using out by (simp only: cur)
  have fo: "findall out t = findall ?root5 t" if "t \<noteq> ?PT" for t
    unfolding out' prune_unused_porttypes_def using that by (rule findall_remove_where_other)
  have 1: "findall out ?BT = [b4]" by (simp add: fo f5 b4(1))
  have 2: "findall out ?PT = [prune_tree K False ?pt1]"
  proof -
    have "findall out ?PT
        = filter (\<lambda>c. ident c = ident target_porttype) (findall ?root5 ?PT)"
      unfolding out' prune_unused_porttypes_def by (simp add: findall_remove_where_same)
    also have "findall ?root5 ?PT = findall ?root3 ?PT" by (simp add: f5 f4)
    also have "\<dots> = map (\<lambda>c. prune_tree K False (if ident c = ident target_porttype then ?pt1 else c))
        (findall root ?PT)"
      by (simp add: pt3 o_def)
    also have "filter (\<lambda>c. ident c = ident target_porttype) \<dots>
        = [prune_tree K False (if ident target_porttype = ident target_porttype then ?pt1
             else target_porttype)]"
    proof (rule filter_ident_map [OF _ tpin])
      show "distinct (map ident (findall root ?PT))"
        using d by (simp add: findall_def distinct_map_filter)
      show "\<forall>c \<in> set (findall root ?PT).
          ident (prune_tree K False (if ident c = ident target_porttype then ?pt1 else c)) = ident c"
        by simp
    qed
    finally show ?thesis by simp
  qed
  from prune_ports_Inr [OF pp] have cs: "cs = filter (\<lambda>c. tag c = (WSDL_NS, ''port'')
        \<longrightarrow> port_refers (get target_binding ''name'') c) (children (prune_tree K False service))"
    by (simp only: cur)
  have 3: "findall out ?ST
      = map (\<lambda>s. if ident s = ident service then ?svc else prune_tree K False s)
          (findall root ?ST)"
    by (simp add: fo s5 s4 o_def cong: if_cong)
  from 1 b4(2) b4(3) 2 3 [unfolded cs] show ?thesis by (intro exI conjI)
qed

subsection \<open>Operations of the binding and of the port type\<close>

lemma names_kept:
  "map (\<lambda>op. get op ''name'') (filter (\<lambda>c. \<not> name_not_in keep c) xs)
     = filter (\<lambda>n. n \<in> Some ` keep) (map (\<lambda>op. get op ''name'') xs)"
  by (induction xs) (auto simp: name_not_in_def split: option.splits)

lemma names_prune_tree:
  "map (\<lambda>op. get op ''name'') (map (prune_tree K b) xs) = map (\<lambda>op. get op ''name'') xs"
  by simp

lemma ex_short_run:
  "prune_wsdl plain_QName ex_nsmap ex_root_short {''Get'', ''Delete''} None ''S''
     = Inr ex_root_short_pruned"
  by code_simp

text \<open>
  Claim C9 as the specification states it fails when the binding and the port type do not
  hold the same operations to begin with. The binding of this document has no operation
  \<^verbatim>\<open>Delete\<close>; kept are \<^verbatim>\<open>Get\<close> and \<^verbatim>\<open>Delete\<close>. The run succeeds, the binding is left with \<^verbatim>\<open>Get\<close>
  and the port type with \<^verbatim>\<open>Get\<close> and \<^verbatim>\<open>Delete\<close>.
\<close>

theorem binding_and_porttype_operations_differ:
  "prune_wsdl plain_QName ex_nsmap ex_root_short {''Get'', ''Delete''} None ''S''
     = Inr ex_root_short_pruned
   \<and> map (\<lambda>b. map (\<lambda>op. get op ''name'') (findall b (WSDL_NS, ''operation'')))
       (findall ex_root_short_pruned (WSDL_NS, ''binding'')) = [[Some ''Get'']]
   \<and> map (\<lambda>p. map (\<lambda>op. get op ''name'') (findall p (WSDL_NS, ''operation'')))
       (findall ex_root_short_pruned (WSDL_NS, ''portType'')) = [[Some ''Get'', Some ''Delete'']]"
  by code_simp

text \<open>
  Claim C9, amended. After a run that raises nothing the document holds one binding and
  one port type, the targets. The names of the operations of the binding are the names
  of the operations the target binding had that are in \<^verbatim>\<open>keep_operations\<close>, in their order,
  and likewise for the port type. So the two sets of names are the same exactly when the
  binding and the port type of the input hold the same names within \<^verbatim>\<open>keep_operations\<close>.
\<close>

theorem surviving_operation_names:
  assumes d: "distinct (map ident (children root))"
    and run: "prune_wsdl Q nsm root keep_ops policy_tree service_name = Inr out"
    and svc: "find_service root service_name = Inr service"
    and ports: "findall service (WSDL_NS, ''port'') = port0 # ports"
    and tb: "binding_for_port root port0 = Inr (Some target_binding)"
    and tp: "porttype_for_binding root target_binding = Inr (Some target_porttype)"
  shows "\<exists>b p. findall out (WSDL_NS, ''binding'') = [b] \<and> ident b = ident target_binding
      \<and> findall out (WSDL_NS, ''portType'') = [p] \<and> ident p = ident target_porttype
      \<and> map (\<lambda>op. get op ''name'') (findall b (WSDL_NS, ''operation''))
          = filter (\<lambda>n. n \<in> Some ` keep_ops)
              (map (\<lambda>op. get op ''name'') (findall target_binding (WSDL_NS, ''operation'')))
      \<and> map (\<lambda>op. get op ''name'') (findall p (WSDL_NS, ''operation''))
          = filter (\<lambda>n. n \<in> Some ` keep_ops)
              (map (\<lambda>op. get op ''name'') (findall target_porttype (WSDL_NS, ''operation'')))
      \<and> (operation_names b = operation_names p
           \<longleftrightarrow> operation_names target_binding \<inter> Some ` keep_ops
               = operation_names target_porttype \<inter> Some ` keep_ops)"
proof -
  let ?OP = "(WSDL_NS, ''operation'')"
  let ?names = "\<lambda>el. map (\<lambda>op. get op ''name'') (findall el ?OP)"
  from prune_wsdl_Inr_tree [OF d run svc ports tb tp] obtain K b where
    b: "findall out (WSDL_NS, ''binding'') = [b]" "ident b = ident target_binding"
    and bo: "\<forall>t. t \<noteq> (WSP_NS, ''UsingPolicy'') \<longrightarrow> t \<noteq> (WSP_NS, ''Policy'')
        \<longrightarrow> findall b t
          = findall (prune_binding_operations (prune_tree K False target_binding) keep_ops) t"
    and p: "findall out (WSDL_NS, ''portType'')
          = [prune_tree K False (prune_porttype_operations target_porttype keep_ops)]"
    by (elim exE conjE)
  let ?p = "prune_tree K False (prune_porttype_operations target_porttype keep_ops)"
  from resolve_qname_tag_Some [OF tb [unfolded binding_for_port_def]]
  have "target_binding \<in> set (findall root (WSDL_NS, ''binding''))" by (rule conjunct1)
  then have tagb: "tag target_binding = (WSDL_NS, ''binding'')" by (simp add: findall_def)
  from resolve_qname_tag_Some [OF tp [unfolded porttype_for_binding_def]]
  have "target_porttype \<in> set (findall root (WSDL_NS, ''portType''))" by (rule conjunct1)
  then have tagp: "tag target_porttype = (WSDL_NS, ''portType'')" by (simp add: findall_def)
  from bo have "findall b ?OP
      = findall (prune_binding_operations (prune_tree K False target_binding) keep_ops) ?OP"
    by simp
  also have "\<dots> = filter (\<lambda>c. \<not> name_not_in keep_ops c)
      (map (prune_tree K False) (findall target_binding ?OP))"
    by (simp add: prune_binding_operations_def findall_remove_where_same
        findall_prune_tree_plain tagb)
  finally have nb: "?names b = filter (\<lambda>n. n \<in> Some ` keep_ops) (?names target_binding)"
    by (simp only: names_kept names_prune_tree)
  have "findall ?p ?OP = map (prune_tree K False)
      (filter (\<lambda>c. \<not> name_not_in keep_ops c) (findall target_porttype ?OP))"
    by (simp add: findall_prune_tree_plain tagp prune_porttype_operations_def
        findall_remove_where_same)
  also have "\<dots> = filter (\<lambda>c. \<not> name_not_in keep_ops c)
      (map (prune_tree K False) (findall target_porttype ?OP))"
    by (rule filter_map_same [symmetric]) (simp add: name_not_in_def)
  finally have np: "?names ?p = filter (\<lambda>n. n \<in> Some ` keep_ops) (?names target_porttype)"
    by (simp only: names_kept names_prune_tree)
  have sets: "operation_names el = set (?names el)" for el
    by (simp add: operation_names_def)
  have "operation_names b = operation_names target_binding \<inter> Some ` keep_ops"
    unfolding sets nb by auto
  moreover have "operation_names ?p = operation_names target_porttype \<inter> Some ` keep_ops"
    unfolding sets np by auto
  ultimately have iff: "operation_names b = operation_names ?p
      \<longleftrightarrow> operation_names target_binding \<inter> Some ` keep_ops
          = operation_names target_porttype \<inter> Some ` keep_ops"
    by simp
  have ip: "ident ?p = ident target_porttype" by simp
  from b p ip nb np iff show ?thesis by (intro exI conjI)
qed

theorem surviving_operation_names_witness:
  "\<exists>b p. findall ex_root_short_pruned (WSDL_NS, ''binding'') = [b]
      \<and> findall ex_root_short_pruned (WSDL_NS, ''portType'') = [p]
      \<and> map (\<lambda>op. get op ''name'') (findall b (WSDL_NS, ''operation'')) = [Some ''Get'']
      \<and> map (\<lambda>op. get op ''name'') (findall p (WSDL_NS, ''operation''))
          = [Some ''Get'', Some ''Delete'']"
proof -
  have d: "distinct (map ident (children ex_root_short))" by code_simp
  have svc: "find_service ex_root_short ''S'' = Inr ex_service" by code_simp
  have ports: "findall ex_service (WSDL_NS, ''port'')
      = Node 60 (WSDL_NS, ''port'') [(''binding'', ''tns:B'')] [] # []" by code_simp
  have tb: "binding_for_port ex_root_short
      (Node 60 (WSDL_NS, ''port'') [(''binding'', ''tns:B'')] []) = Inr (Some ex_binding_short)"
    by code_simp
  have tp: "porttype_for_binding ex_root_short ex_binding_short = Inr (Some ex_porttype)"
    by code_simp
  have nb: "filter (\<lambda>n. n \<in> Some ` {''Get'', ''Delete''})
      (map (\<lambda>op. get op ''name'') (findall ex_binding_short (WSDL_NS, ''operation'')))
      = [Some ''Get'']" by code_simp
  have np: "filter (\<lambda>n. n \<in> Some ` {''Get'', ''Delete''})
      (map (\<lambda>op. get op ''name'') (findall ex_porttype (WSDL_NS, ''operation'')))
      = [Some ''Get'', Some ''Delete'']" by code_simp
  from surviving_operation_names [OF d ex_short_run svc ports tb tp]
  obtain b p where "findall ex_root_short_pruned (WSDL_NS, ''binding'') = [b]"
    "findall ex_root_short_pruned (WSDL_NS, ''portType'') = [p]"
    "map (\<lambda>op. get op ''name'') (findall b (WSDL_NS, ''operation'')) = [Some ''Get'']"
    "map (\<lambda>op. get op ''name'') (findall p (WSDL_NS, ''operation''))
       = [Some ''Get'', Some ''Delete'']"
    unfolding nb np by (elim exE conjE)
  then show ?thesis by (intro exI conjI)
qed

subsection \<open>Ports\<close>

lemma port_refers_prune_tree [simp]:
  "port_refers name (prune_tree K b c) = port_refers name c"
  by (simp add: port_refers_def)







text \<open>
  Claim C1. \<^verbatim>\<open>prune_bindings\<close> removes every binding but the target and
  \<^verbatim>\<open>prune_service_ports\<close>, commented "Keep only ports that reference the target binding",
  then removes the ports of other bindings, but only from the target service: no stage
  looks at the other services. In this document the port \<^verbatim>\<open>P2\<close> of the service \<^verbatim>\<open>S2\<close> is on
  the binding \<^verbatim>\<open>B2\<close>. The run for \<^verbatim>\<open>S\<close> succeeds, deletes \<^verbatim>\<open>B2\<close> and leaves \<^verbatim>\<open>P2\<close>: a surviving
  port refers to a declaration that the run deleted.
\<close>

theorem port_of_other_service_dangles:
  "binding_for_port ex_root_two ex_port_other = Inr (Some ex_binding_other)
   \<and> prune_wsdl plain_QName ex_nsmap ex_root_two {''Get''} None ''S'' = Inr ex_root_two_pruned
   \<and> ex_port_other \<in> set (concat (map (\<lambda>s. findall s (WSDL_NS, ''port''))
                                 (findall ex_root_two_pruned (WSDL_NS, ''service''))))
   \<and> map (\<lambda>b. get b ''name'') (findall ex_root_two_pruned (WSDL_NS, ''binding'')) = [Some ''B'']
   \<and> binding_for_port ex_root_two_pruned ex_port_other = Inr None"
  by code_simp

end
